theory Spec2Isabelle
  imports Complex_Main "HOL-Library.Sublist" "HOL-Library.Log_Nat"
begin


section \<open>Strings, bytes and errors\<close>

text \<open>
  A Python \<open>str\<close> is a sequence of Unicode code points and a \<open>bytes\<close> object a sequence
  of integers below 256; both are lists of naturals here. \<open>lit\<close> writes an ASCII literal
  of the source; the newline of the source's literals is the code point 10.
\<close>

type_synonym str = "nat list"
type_synonym bytes = "nat list"

definition lit :: "string \<Rightarrow> nat list" where
  "lit s = map of_char s"

text \<open>
  The exceptions: \<open>RuntimeError(message)\<close> of the two layout checks,
  \<open>ValueError("invalid width %r (must be > 0)" % width)\<close> of the text wrapper, with the
  width it names, and the error of a strict encoder.
\<close>

datatype error = RuntimeError string | ValueError int | UnicodeEncodeError

text \<open>\<open>s.encode("latin-1")\<close> raises outside Latin-1; with \<open>errors="replace"\<close> it writes \<open>?\<close>.\<close>

definition encode_latin1 :: "str \<Rightarrow> error + bytes" where
  "encode_latin1 s = (if list_all (\<lambda>c. c < 256) s then Inr s else Inl UnicodeEncodeError)"

definition encode_latin1_replace :: "str \<Rightarrow> bytes" where
  "encode_latin1_replace s = map (\<lambda>c. if c < 256 then c else 63) s"

text \<open>\<open>str(n)\<close> and \<open>f"{n}"\<close> for an integer that is never negative (an index, a length).\<close>

fun str_nat :: "nat \<Rightarrow> str" where
  "str_nat n = (if n < 10 then [48 + n] else str_nat (n div 10) @ [48 + n mod 10])"

declare str_nat.simps [simp del]

text \<open>\<open>f"{off:010d}"\<close>: zero-padded to ten digits, longer when the number needs more.\<close>

definition fmt_010d :: "nat \<Rightarrow> str" where
  "fmt_010d n = replicate (10 - length (str_nat n)) 48 @ str_nat n"

text \<open>\<open>sep.join(xs)\<close>.\<close>

fun join :: "str \<Rightarrow> str list \<Rightarrow> str" where
  "join sep [] = []"
| "join sep [x] = x"
| "join sep (x # y # ys) = x @ sep @ join sep (y # ys)"

text \<open>Reading a decimal number back, as a reader of the file does: the leading digits.\<close>

definition is_digit :: "nat \<Rightarrow> bool" where
  "is_digit c = (48 \<le> c \<and> c \<le> 57)"

definition read_nat :: "bytes \<Rightarrow> nat" where
  "read_nat bs = foldl (\<lambda>a c. 10 * a + (c - 48)) 0 (takeWhile is_digit bs)"

section \<open>The serializer of generate_shokaishelf_engine_vergleich_de_pdf.py\<close>

definition pdf_header :: bytes where
  "pdf_header = lit ''%PDF-1.4'' @ [10] @ [37, 226, 227, 207, 211, 10]"

text \<open>
  The first loop of \<open>build_pdf\<close>: \<open>for i, obj in enumerate(objects, start=1)\<close>, on the
  state \<open>(out, offsets)\<close>.
\<close>

fun build_pdf_objs :: "nat \<Rightarrow> bytes list \<Rightarrow> bytes \<times> nat list \<Rightarrow> error + bytes \<times> nat list" where
  "build_pdf_objs i [] (out, offsets) = Inr (out, offsets)"
| "build_pdf_objs i (obj # objs) (out, offsets) =
     (case encode_latin1 (str_nat i @ lit '' 0 obj'' @ [10]) of
        Inl e \<Rightarrow> Inl e
      | Inr tok \<Rightarrow>
          build_pdf_objs (i + 1) objs
            (out @ tok @ obj @ ([10] @ lit ''endobj'' @ [10]), offsets @ [length out]))"

text \<open>The second loop: \<open>for off in offsets[1:]\<close>.\<close>

fun build_pdf_xref :: "nat list \<Rightarrow> bytes \<Rightarrow> error + bytes" where
  "build_pdf_xref [] out = Inr out"
| "build_pdf_xref (off # offs) out =
     (case encode_latin1 (fmt_010d off @ lit '' 00000 n '' @ [10]) of
        Inl e \<Rightarrow> Inl e
      | Inr entry \<Rightarrow> build_pdf_xref offs (out @ entry))"

definition build_pdf :: "bytes list \<Rightarrow> error + bytes" where
  "build_pdf objects =
     (case build_pdf_objs 1 objects (pdf_header, [0]) of
        Inl e \<Rightarrow> Inl e
      | Inr (out, offsets) \<Rightarrow>
          let xref = length out in
          (case encode_latin1 (lit ''xref'' @ [10] @ lit ''0 '' @ str_nat (length objects + 1) @ [10]) of
             Inl e \<Rightarrow> Inl e
           | Inr head \<Rightarrow>
               (case build_pdf_xref (tl offsets)
                       (out @ head @ (lit ''0000000000 65535 f '' @ [10])) of
                  Inl e \<Rightarrow> Inl e
                | Inr out' \<Rightarrow>
                    (case encode_latin1
                            (lit ''trailer'' @ [10]
                             @ lit ''<< /Size '' @ str_nat (length objects + 1) @ lit '' /Root 1 0 R >>'' @ [10]
                             @ lit ''startxref'' @ [10]
                             @ str_nat xref @ [10]
                             @ lit ''%%EOF'' @ [10]) of
                       Inl e \<Rightarrow> Inl e
                     | Inr trailer \<Rightarrow> Inr (out' @ trailer)))))"

text \<open>
  The object list of \<open>main\<close> (lines 142 to 150), from the command list of the page:
  the stream is encoded first and its length is taken from the encoded bytes.
\<close>

definition main_stream :: "str list \<Rightarrow> bytes" where
  "main_stream commands = encode_latin1_replace (join [10] commands @ [10])"

definition main_objs :: "bytes \<Rightarrow> error + bytes list" where
  "main_objs stream =
     (case encode_latin1 (lit ''<< /Length '' @ str_nat (length stream) @ lit '' >>'' @ [10] @ lit ''stream'' @ [10]) of
        Inl e \<Rightarrow> Inl e
      | Inr head \<Rightarrow>
          Inr [lit ''<< /Type /Catalog /Pages 2 0 R >>'',
               lit ''<< /Type /Pages /Kids [3 0 R] /Count 1 >>'',
               lit ''<< /Type /Page /Parent 2 0 R /MediaBox [0 0 612 792] /Resources << /Font << /F1 4 0 R /F2 5 0 R >> >> /Contents 6 0 R >>'',
               lit ''<< /Type /Font /Subtype /Type1 /BaseFont /Helvetica >>'',
               lit ''<< /Type /Font /Subtype /Type1 /BaseFont /Helvetica-Bold >>'',
               head @ stream @ lit ''endstream''])"

section \<open>The serializer of generate_shokaishelf_app_summary_pdf.py\<close>

text \<open>\<open>build_pdf_stream\<close>, on the command list of the layout.\<close>

definition build_pdf_stream :: "str list \<Rightarrow> bytes" where
  "build_pdf_stream commands = encode_latin1_replace (join [10] commands @ [10])"

text \<open>The object list that \<open>write_pdf\<close> builds first (lines 67 to 80).\<close>

definition write_pdf_objects :: "bytes \<Rightarrow> error + bytes list" where
  "write_pdf_objects content_stream =
     (case encode_latin1 (lit ''<< /Length '' @ str_nat (length content_stream) @ lit '' >>'' @ [10] @ lit ''stream'' @ [10]) of
        Inl e \<Rightarrow> Inl e
      | Inr head \<Rightarrow>
          Inr [lit ''<< /Type /Catalog /Pages 2 0 R >>'',
               lit ''<< /Type /Pages /Kids [3 0 R] /Count 1 >>'',
               lit ''<< /Type /Page /Parent 2 0 R /MediaBox [0 0 612 792] '' @
               lit ''/Resources << /Font << /F1 4 0 R /F2 5 0 R >> >> /Contents 6 0 R >>'',
               lit ''<< /Type /Font /Subtype /Type1 /BaseFont /Helvetica >>'',
               lit ''<< /Type /Font /Subtype /Type1 /BaseFont /Helvetica-Bold >>'',
               head @ content_stream @ lit ''endstream''])"

text \<open>The loop \<open>for idx, obj in enumerate(objects, start=1)\<close> on \<open>(pdf, offsets)\<close>.\<close>

fun write_pdf_objs :: "nat \<Rightarrow> bytes list \<Rightarrow> bytes \<times> nat list \<Rightarrow> error + bytes \<times> nat list" where
  "write_pdf_objs idx [] (pdf, offsets) = Inr (pdf, offsets)"
| "write_pdf_objs idx (obj # objs) (pdf, offsets) =
     (case encode_latin1 (str_nat idx @ lit '' 0 obj'' @ [10]) of
        Inl e \<Rightarrow> Inl e
      | Inr tok \<Rightarrow>
          write_pdf_objs (idx + 1) objs
            (pdf @ tok @ obj @ ([10] @ lit ''endobj'' @ [10]), offsets @ [length pdf]))"

fun write_pdf_xref :: "nat list \<Rightarrow> bytes \<Rightarrow> error + bytes" where
  "write_pdf_xref [] pdf = Inr pdf"
| "write_pdf_xref (off # offs) pdf =
     (case encode_latin1 (fmt_010d off @ lit '' 00000 n '' @ [10]) of
        Inl e \<Rightarrow> Inl e
      | Inr entry \<Rightarrow> write_pdf_xref offs (pdf @ entry))"

text \<open>Lines 82 to 106 of \<open>write_pdf\<close>: the bytes assembled from the object list.\<close>

definition write_pdf_assemble :: "bytes list \<Rightarrow> error + bytes" where
  "write_pdf_assemble objects =
     (case write_pdf_objs 1 objects (pdf_header, [0]) of
        Inl e \<Rightarrow> Inl e
      | Inr (pdf, offsets) \<Rightarrow>
          let xref_pos = length pdf in
          (case encode_latin1 (lit ''xref'' @ [10] @ lit ''0 '' @ str_nat (length objects + 1) @ [10]) of
             Inl e \<Rightarrow> Inl e
           | Inr head \<Rightarrow>
               (case write_pdf_xref (tl offsets)
                       (pdf @ head @ (lit ''0000000000 65535 f '' @ [10])) of
                  Inl e \<Rightarrow> Inl e
                | Inr pdf' \<Rightarrow>
                    (case encode_latin1
                            (lit ''trailer'' @ [10]
                             @ lit ''<< /Size '' @ str_nat (length objects + 1) @ lit '' /Root 1 0 R >>'' @ [10]
                             @ lit ''startxref'' @ [10]
                             @ str_nat xref_pos @ [10]
                             @ lit ''%%EOF'' @ [10]) of
                       Inl e \<Rightarrow> Inl e
                     | Inr trailer \<Rightarrow> Inr (pdf' @ trailer)))))"

text \<open>
  \<open>write_pdf\<close>: the bytes it hands to \<open>f.write\<close>. The directory creation and the file
  write are outside the model.
\<close>

definition write_pdf :: "bytes \<Rightarrow> error + bytes" where
  "write_pdf content_stream =
     (case write_pdf_objects content_stream of
        Inl e \<Rightarrow> Inl e
      | Inr objects \<Rightarrow> write_pdf_assemble objects)"

section \<open>Reading the serialized file\<close>

text \<open>
  The opening token of object \<open>i\<close>, one entry of the cross-reference table and the
  fixed parts around it, as the serializers write them; \<open>build_pdf_offsets\<close> and
  \<open>write_pdf_offsets\<close> are the list \<open>offsets\<close> after the first loop.
\<close>

definition obj_token :: "nat \<Rightarrow> bytes" where
  "obj_token i = str_nat i @ lit '' 0 obj''"

definition xref_entry :: "nat \<Rightarrow> bytes" where
  "xref_entry off = fmt_010d off @ lit '' 00000 n '' @ [10]"

definition xref_head :: "nat \<Rightarrow> bytes" where
  "xref_head n = lit ''xref'' @ [10] @ lit ''0 '' @ str_nat (n + 1) @ [10] @ (lit ''0000000000 65535 f '' @ [10])"

definition build_pdf_offsets :: "bytes list \<Rightarrow> nat list" where
  "build_pdf_offsets objects =
     (case build_pdf_objs 1 objects (pdf_header, [0]) of Inl e \<Rightarrow> [] | Inr (out, offsets) \<Rightarrow> offsets)"

definition write_pdf_offsets :: "bytes list \<Rightarrow> nat list" where
  "write_pdf_offsets objects =
     (case write_pdf_objs 1 objects (pdf_header, [0]) of Inl e \<Rightarrow> [] | Inr (pdf, offsets) \<Rightarrow> offsets)"

fun objs_bytes :: "nat \<Rightarrow> bytes list \<Rightarrow> bytes" where
  "objs_bytes i [] = []"
| "objs_bytes i (obj # objs) = (obj_token i @ [10] @ obj @ [10] @ lit ''endobj'' @ [10]) @ objs_bytes (i + 1) objs"

fun obj_starts :: "nat \<Rightarrow> nat \<Rightarrow> bytes list \<Rightarrow> nat list" where
  "obj_starts start i [] = []"
| "obj_starts start i (obj # objs) =
     start # obj_starts (start + length (obj_token i @ [10] @ obj @ [10] @ lit ''endobj'' @ [10])) (i + 1) objs"

definition trailer_bytes :: "nat \<Rightarrow> nat \<Rightarrow> bytes" where
  "trailer_bytes n xref = lit ''trailer'' @ [10]
     @ lit ''<< /Size '' @ str_nat (n + 1) @ lit '' /Root 1 0 R >>'' @ [10]
     @ lit ''startxref'' @ [10] @ str_nat xref @ [10] @ lit ''%%EOF'' @ [10]"

section \<open>The text wrapper of the Python library, as called by both generators\<close>

text \<open>
  Both layout classes call \<open>textwrap.wrap(text, width=width)\<close> with every other option at
  its default: tabs expanded to columns of eight, whitespace replaced by blanks, chunks
  split at whitespace and after the hyphens of compound words, long words broken,
  whitespace dropped at the ends of lines, no limit on the lines. The functions below
  follow \<open>TextWrapper\<close> of CPython 3.11 under these defaults.

  The character classes \<open>\w\<close> and \<open>\d\<close> of the chunk pattern come from the Unicode
  character database; on ASCII they are written out, and beyond ASCII they are the
  fields \<open>isalnum\<close> and \<open>isdecimal\<close> of the tables of the Python runtime that every
  function of this section takes. The third table, \<open>repr_float\<close>, is \<open>repr\<close> on floats; the
  draw instruction of the app summary uses it.
\<close>

record runtime =
  isalnum :: "nat \<Rightarrow> bool"
  isdecimal :: "nat \<Rightarrow> bool"
  repr_float :: "real \<Rightarrow> str"

definition is_word :: "runtime \<Rightarrow> nat \<Rightarrow> bool" where
  "is_word db c =
     (if c < 128 then (48 \<le> c \<and> c \<le> 57) \<or> (65 \<le> c \<and> c \<le> 90) \<or> (97 \<le> c \<and> c \<le> 122) \<or> c = 95
      else isalnum db c)"

definition is_decimal :: "runtime \<Rightarrow> nat \<Rightarrow> bool" where
  "is_decimal db c = (if c < 128 then 48 \<le> c \<and> c \<le> 57 else isdecimal db c)"

text \<open>\<open>letter = [^\d\W]\<close> and \<open>word_punct = [\w!"'&.,?]\<close>.\<close>

definition is_letter :: "runtime \<Rightarrow> nat \<Rightarrow> bool" where
  "is_letter db c = (is_word db c \<and> \<not> is_decimal db c)"

definition is_word_punct :: "runtime \<Rightarrow> nat \<Rightarrow> bool" where
  "is_word_punct db c = (is_word db c \<or> c \<in> set [33, 34, 39, 38, 46, 44, 63])"

text \<open>\<open>_whitespace\<close>: tab, newline, vertical tab, form feed, carriage return, blank.\<close>

definition is_ws :: "nat \<Rightarrow> bool" where
  "is_ws c = (c \<in> set [9, 10, 11, 12, 13, 32])"

text \<open>
  The characters that \<open>str.strip()\<close> removes (\<open>str.isspace\<close>); a chunk \<open>c\<close> has
  \<open>c.strip() == ''\<close> when all its characters are of this kind.
\<close>

definition is_space :: "nat \<Rightarrow> bool" where
  "is_space c =
     (c \<in> set [9, 10, 11, 12, 13, 28, 29, 30, 31, 32, 133, 160, 5760, 8232, 8233, 8239, 8287, 12288]
      \<or> (8192 \<le> c \<and> c \<le> 8202))"

definition blank :: "str \<Rightarrow> bool" where
  "blank chunk = list_all is_space chunk"

text \<open>\<open>text.expandtabs(tabsize)\<close>, with the column \<open>j\<close> of the next character.\<close>

fun expandtabs :: "nat \<Rightarrow> nat \<Rightarrow> str \<Rightarrow> str" where
  "expandtabs tabsize j [] = []"
| "expandtabs tabsize j (c # cs) =
     (if c = 9 then
        (if tabsize > 0
         then replicate (tabsize - j mod tabsize) 32
              @ expandtabs tabsize (j + (tabsize - j mod tabsize)) cs
         else expandtabs tabsize j cs)
      else if c = 10 \<or> c = 13 then c # expandtabs tabsize 0 cs
      else c # expandtabs tabsize (j + 1) cs)"

definition munge_whitespace :: "str \<Rightarrow> str" where
  "munge_whitespace text = map (\<lambda>c. if is_ws c then 32 else c) (expandtabs 8 0 text)"

text \<open>
  The pattern \<open>wordsep_re\<close>. \<open>bef\<close> is the text before the position, last character
  first, for the look-behinds; the second list is the text from the position on.

  \<open>hyphen_run\<close> is the length of a run \<open>-{2,}\<close> that a \<open>\w\<close> follows, or 0.
\<close>

definition hyphen_run :: "runtime \<Rightarrow> str \<Rightarrow> nat" where
  "hyphen_run db rest =
     (let k = length (takeWhile (\<lambda>c. c = 45) rest) in
      if 2 \<le> k \<and> (case drop k rest of [] \<Rightarrow> False | d # _ \<Rightarrow> is_word db d) then k else 0)"

text \<open>
  After the characters of a word, a hyphen at the position ends the chunk behind itself:
  \<open>-(?:(?<=lt{2}-)|(?<=lt-lt-))(?=lt-?lt)\<close>.
\<close>

definition hyphen_break :: "runtime \<Rightarrow> str \<Rightarrow> str \<Rightarrow> bool" where
  "hyphen_break db bef rest =
     (case rest of
        [] \<Rightarrow> False
      | c # cs \<Rightarrow>
          c = 45
          \<and> (case bef of
               b1 # b2 # bs \<Rightarrow>
                 (is_letter db b2 \<and> is_letter db b1)
                 \<or> (case bs of b3 # _ \<Rightarrow> is_letter db b3 \<and> b2 = 45 \<and> is_letter db b1 | [] \<Rightarrow> False)
             | _ \<Rightarrow> False)
          \<and> (case cs of
               d1 # d2 # ds \<Rightarrow>
                 is_letter db d1
                 \<and> (if d2 = 45 then (case ds of d3 # _ \<Rightarrow> is_letter db d3 | [] \<Rightarrow> False)
                     else is_letter db d2)
             | _ \<Rightarrow> False))"

text \<open>
  The third alternative, \<open>nws+?\<close> and its three ends tried in order at each length:
  the number of characters of the chunk from the position on, the characters before it
  being in the chunk already.
\<close>

fun word_end :: "runtime \<Rightarrow> str \<Rightarrow> str \<Rightarrow> nat" where
  "word_end db bef [] = 0"
| "word_end db bef (c # cs) =
     (if hyphen_break db bef (c # cs) then 1
      else if is_ws c then 0
      else if (case bef of b # _ \<Rightarrow> is_word_punct db b | [] \<Rightarrow> False) \<and> 0 < hyphen_run db (c # cs) then 0
      else Suc (word_end db (c # bef) cs))"

text \<open>The length of the match at a position where text is left.\<close>

definition chunk_len :: "runtime \<Rightarrow> str \<Rightarrow> str \<Rightarrow> nat" where
  "chunk_len db bef rest =
     (case rest of
        [] \<Rightarrow> 0
      | c # cs \<Rightarrow>
          if is_ws c then length (takeWhile is_ws rest)
          else if (case bef of b # _ \<Rightarrow> is_word_punct db b | [] \<Rightarrow> False) \<and> 0 < hyphen_run db rest
          then hyphen_run db rest
          else Suc (word_end db (c # bef) cs))"

text \<open>
  \<open>_split\<close>: the pattern matches at every position, so the pieces between the matches
  are empty and the chunks are the matches themselves, none of them empty.
\<close>

function split_from :: "runtime \<Rightarrow> str \<Rightarrow> str \<Rightarrow> str list" where
  "split_from db bef rest =
     (if rest = [] then []
      else take (chunk_len db bef rest) rest
           # split_from db (rev (take (chunk_len db bef rest) rest) @ bef)
               (drop (chunk_len db bef rest) rest))"
  by pat_completeness auto
termination
proof (relation "measure (\<lambda>(db, bef, rest). length rest)")
  show "wf (measure (\<lambda>(db, bef, rest). length rest))" by simp
next
  fix db :: runtime and bef rest :: str
  assume "rest \<noteq> []"
  then obtain c cs where r: "rest = c # cs" by (cases rest) auto
  have "0 < chunk_len db bef rest"
    unfolding chunk_len_def r by (cases "is_ws c") auto
  with r show "((db, rev (take (chunk_len db bef rest) rest) @ bef, drop (chunk_len db bef rest) rest), (db, bef, rest))
      \<in> measure (\<lambda>(db, bef, rest). length rest)"
    by simp
qed

declare split_from.simps [simp del]

definition split_chunks :: "runtime \<Rightarrow> str \<Rightarrow> str list" where
  "split_chunks db text = split_from db [] (munge_whitespace text)"

text \<open>
  \<open>_wrap_chunks\<close>. The source reverses the chunk list and pops from its end; here the
  list stays in text order and the head is the next chunk. \<open>fill_line\<close> is the inner
  loop, on \<open>cur_line\<close> and \<open>cur_len\<close>.
\<close>

fun fill_line :: "nat \<Rightarrow> str list \<Rightarrow> str list \<Rightarrow> nat \<Rightarrow> str list \<times> nat \<times> str list" where
  "fill_line width [] cur_line cur_len = (cur_line, cur_len, [])"
| "fill_line width (c # cs) cur_line cur_len =
     (if cur_len + length c \<le> width
      then fill_line width cs (cur_line @ [c]) (cur_len + length c)
      else (cur_line, cur_len, c # cs))"

text \<open>\<open>chunk.rfind('-', 0, end)\<close>: the last index below \<open>end\<close> holding a hyphen, or -1.\<close>

definition rfind_hyphen :: "str \<Rightarrow> nat \<Rightarrow> int" where
  "rfind_hyphen chunk end =
     (let s = take end chunk in
      if 45 \<in> set s then int (length s) - 1 - int (length (takeWhile (\<lambda>c. c \<noteq> 45) (rev s))) else - 1)"

text \<open>\<open>_handle_long_word\<close> with \<open>break_long_words\<close> and \<open>break_on_hyphens\<close> set.\<close>

definition handle_long_word :: "str list \<Rightarrow> str list \<Rightarrow> nat \<Rightarrow> nat \<Rightarrow> str list \<times> str list" where
  "handle_long_word chunks cur_line cur_len width =
     (let space_left = (if width < 1 then 1 else width - cur_len);
          chunk = hd chunks;
          hyphen = rfind_hyphen chunk space_left;
          end = (if length chunk > space_left \<and> hyphen > 0
                    \<and> list_ex (\<lambda>c. c \<noteq> 45) (take (nat hyphen) chunk)
                 then nat hyphen + 1 else space_left)
      in (drop end chunk # tl chunks, cur_line @ [take end chunk]))"

text \<open>One round of the outer loop: the chunks left and the lines so far.\<close>

definition wrap_line :: "nat \<Rightarrow> str list \<Rightarrow> str list \<Rightarrow> str list \<times> str list" where
  "wrap_line width chunks lines =
     (let chunks1 = (if blank (hd chunks) \<and> lines \<noteq> [] then tl chunks else chunks);
          (cur_line, cur_len, chunks2) = fill_line width chunks1 [] 0;
          (chunks3, cur_line3) =
            (if chunks2 \<noteq> [] \<and> length (hd chunks2) > width
             then handle_long_word chunks2 cur_line cur_len width
             else (chunks2, cur_line));
          cur_line4 = (if cur_line3 \<noteq> [] \<and> blank (last cur_line3) then butlast cur_line3 else cur_line3)
      in (chunks3, if cur_line4 \<noteq> [] then lines @ [concat cur_line4] else lines))"

definition chunks_size :: "str list \<Rightarrow> nat" where
  "chunks_size chunks = sum_list (map (\<lambda>c. Suc (length c)) chunks)"

text \<open>
  The outer loop \<open>while chunks\<close>. Every round takes a chunk, or at least one character
  of the first chunk, off the list, so the loop ends.
\<close>

function wrap_lines :: "nat \<Rightarrow> str list \<Rightarrow> str list \<Rightarrow> str list" where
  "wrap_lines width chunks lines =
     (if chunks = [] then lines
      else wrap_lines width (fst (wrap_line width chunks lines)) (snd (wrap_line width chunks lines)))"
  by pat_completeness auto
termination
proof (relation "measure (\<lambda>(width, chunks, lines). chunks_size chunks)")
  show "wf (measure (\<lambda>(width, chunks, lines). chunks_size chunks))" by simp
next
  fix width :: nat and chunks lines :: "str list"
  assume ne: "chunks \<noteq> []"
  have fill_line_size:
    "fill_line width cs cl n = (cl', n', cs') \<Longrightarrow>
       chunks_size cs' \<le> chunks_size cs
       \<and> (chunks_size cs' = chunks_size cs \<longrightarrow> cl' = cl \<and> n' = n \<and> cs' = cs \<and> (cs \<noteq> [] \<longrightarrow> width < n + length (hd cs)))"
      for cs cl n cl' n' cs'
  proof (induction cs arbitrary: cl n)
    case Nil
    then show ?case by simp
  next
    case (Cons c cs)
    show ?case
    proof (cases "n + length c \<le> width")
      case True
      with Cons.prems have "fill_line width cs (cl @ [c]) (n + length c) = (cl', n', cs')" by simp
      from Cons.IH [OF this] have "chunks_size cs' \<le> chunks_size cs" by simp
      then have "chunks_size cs' < chunks_size (c # cs)" by (simp add: chunks_size_def)
      then show ?thesis by simp
    next
      case False
      with Cons.prems have "cl' = cl" "n' = n" "cs' = c # cs" by simp_all
      with False show ?thesis by simp
    qed
  qed
  have handle_long_word_size:
    "chunks_size (fst (handle_long_word (c # cs) cur_line cur_len width)) \<le> chunks_size (c # cs)"
    "cur_len = 0 \<Longrightarrow> width < length c \<Longrightarrow>
       chunks_size (fst (handle_long_word (c # cs) cur_line cur_len width)) < chunks_size (c # cs)"
      for c cs cur_line cur_len
  proof -
    define space_left where "space_left = (if width < 1 then 1 else width - cur_len)"
    define e where "e = (if length c > space_left \<and> rfind_hyphen c space_left > 0
                      \<and> list_ex (\<lambda>x. x \<noteq> 45) (take (nat (rfind_hyphen c space_left)) c)
                   then nat (rfind_hyphen c space_left) + 1 else space_left)"
    have f: "fst (handle_long_word (c # cs) cur_line cur_len width) = drop e c # cs"
      unfolding handle_long_word_def Let_def e_def space_left_def by simp
    show "chunks_size (fst (handle_long_word (c # cs) cur_line cur_len width)) \<le> chunks_size (c # cs)"
      unfolding f by (simp add: chunks_size_def)
    assume "cur_len = 0" and w: "width < length c"
    then have "0 < space_left" unfolding space_left_def by simp
    then have "0 < e" unfolding e_def by simp
    moreover have "0 < length c" using w by linarith
    ultimately show "chunks_size (fst (handle_long_word (c # cs) cur_line cur_len width)) < chunks_size (c # cs)"
      unfolding f by (simp add: chunks_size_def)
  qed
  have dec: "chunks_size (fst (wrap_line width chunks lines)) < chunks_size chunks"
  proof -
    define chunks1 where "chunks1 = (if blank (hd chunks) \<and> lines \<noteq> [] then tl chunks else chunks)"
    obtain cur_line cur_len chunks2 where f: "fill_line width chunks1 [] 0 = (cur_line, cur_len, chunks2)"
      by (cases "fill_line width chunks1 [] 0") auto
    define chunks3 where "chunks3 = fst (if chunks2 \<noteq> [] \<and> length (hd chunks2) > width
               then handle_long_word chunks2 cur_line cur_len width
               else (chunks2, cur_line))"
    have res: "fst (wrap_line width chunks lines) = chunks3"
      unfolding wrap_line_def chunks3_def chunks1_def [symmetric] Let_def f
      by (simp add: split_beta)
    obtain c0 cs0 where c0: "chunks = c0 # cs0" using ne by (cases chunks) auto
    have c1: "chunks_size chunks1 \<le> chunks_size chunks"
      unfolding chunks1_def c0 by (simp add: chunks_size_def)
    have c1': "chunks_size chunks1 = chunks_size chunks \<Longrightarrow> chunks1 = chunks"
      unfolding chunks1_def c0 by (simp add: chunks_size_def split: if_splits)
    note c2 = fill_line_size [OF f]
    have c3: "chunks_size chunks3 \<le> chunks_size chunks2"
    proof (cases chunks2)
      case Nil
      then show ?thesis unfolding chunks3_def by simp
    next
      case (Cons c cs)
      show ?thesis unfolding chunks3_def Cons using handle_long_word_size(1) [of c cs cur_line cur_len]
        by simp
    qed
    show ?thesis
    proof (cases "chunks_size chunks2 = chunks_size chunks")
      case False
      with c1 c2 c3 show ?thesis unfolding res by linarith
    next
      case True
      with c1 c2 have e1: "chunks_size chunks1 = chunks_size chunks" and e2: "chunks_size chunks2 = chunks_size chunks1"
        by linarith+
      from c1' [OF e1] have k1: "chunks1 = c0 # cs0" unfolding c0 .
      from c2 e2 have k2: "cur_line = []" "cur_len = 0" "chunks2 = chunks1" "width < 0 + length (hd chunks1)"
        using k1 by simp_all
      have "chunks3 = fst (handle_long_word (c0 # cs0) [] 0 width)"
        unfolding chunks3_def using k1 k2 by simp
      moreover have "width < length c0" using k2(4) k1 by simp
      ultimately have "chunks_size chunks3 < chunks_size (c0 # cs0)"
        using handle_long_word_size(2) [of 0 c0 cs0 "[]"] by simp
      then show ?thesis using res c0 by simp
    qed
  qed
  then show "((width, fst (wrap_line width chunks lines), snd (wrap_line width chunks lines)), (width, chunks, lines))
      \<in> measure (\<lambda>(width, chunks, lines). chunks_size chunks)"
    by (simp add: split_beta)
qed

declare wrap_lines.simps [simp del]

text \<open>\<open>_wrap_chunks\<close> and \<open>textwrap.wrap(text, width=width)\<close>.\<close>

definition wrap_chunks :: "str list \<Rightarrow> int \<Rightarrow> error + str list" where
  "wrap_chunks chunks width =
     (if width \<le> 0 then Inl (ValueError width)
      else Inr (wrap_lines (nat width) chunks []))"

definition wrap :: "runtime \<Rightarrow> str \<Rightarrow> int \<Rightarrow> error + str list" where
  "wrap db text width = wrap_chunks (split_chunks db text) width"

section \<open>Escaping and the draw instruction\<close>

text \<open>
  \<open>s.replace(old, new)\<close>: the occurrences of \<open>old\<close> from the left, without overlap; an
  empty \<open>old\<close> matches before every character and at the end.
\<close>

function replace :: "str \<Rightarrow> str \<Rightarrow> str \<Rightarrow> str" where
  "replace old new [] = (if old = [] then new else [])"
| "replace old new (c # cs) =
     (if old = [] then new @ c # replace old new cs
      else if prefix old (c # cs) then new @ replace old new (drop (length old) (c # cs))
      else c # replace old new cs)"
  by pat_completeness auto
termination
  by (relation "measure (\<lambda>(old, new, s). length s)") (auto simp: neq_Nil_conv)

text \<open>
  \<open>escape_pdf_text\<close> (app summary) and \<open>esc\<close> (engine vergleich): backslash is 92, the
  parentheses are 40 and 41.
\<close>

definition escape_pdf_text :: "str \<Rightarrow> str" where
  "escape_pdf_text text = replace [41] [92, 41] (replace [40] [92, 40] (replace [92] [92, 92] text))"

definition esc :: "str \<Rightarrow> str" where
  "esc text = replace [41] [92, 41] (replace [40] [92, 40] (replace [92] [92, 92] text))"

text \<open>
  Reading a literal string of the page description back: a backslash stands for the
  character behind it.
\<close>

fun unescape :: "str \<Rightarrow> str" where
  "unescape [] = []"
| "unescape [c] = [c]"
| "unescape (c # d # cs) = (if c = 92 then d # unescape cs else c # unescape (d # cs))"

text \<open>
  \<open>f"{v:.2f}"\<close> and \<open>f"{v:.1f}"\<close> round the value to the digits asked for, ties to even.
\<close>

definition round_half_even :: "real \<Rightarrow> int" where
  "round_half_even r =
     (if r - of_int \<lfloor>r\<rfloor> < 1 / 2 then \<lfloor>r\<rfloor>
      else if 1 / 2 < r - of_int \<lfloor>r\<rfloor> then \<lfloor>r\<rfloor> + 1
      else if even \<lfloor>r\<rfloor> then \<lfloor>r\<rfloor> else \<lfloor>r\<rfloor> + 1)"

definition fmt_fixed :: "nat \<Rightarrow> real \<Rightarrow> str" where
  "fmt_fixed d v =
     (let n = nat (round_half_even (\<bar>v\<bar> * 10 ^ d)) in
      (if v < 0 then [45] else [])
      @ str_nat (n div 10 ^ d)
      @ (if d = 0 then []
         else [46] @ replicate (d - length (str_nat (n mod 10 ^ d))) 48 @ str_nat (n mod 10 ^ d)))"

section \<open>Floating point\<close>

text \<open>
  A Python float is an IEEE 754 double. A finite double is held here as the real number
  it stands for: a whole multiple of a power of two, the multiplier below \<open>2^53\<close> in
  magnitude and the power at least \<open>2^-1074\<close> (\<open>denorm\<close>, the smallest positive double).

  \<open>ulp x\<close> is the spacing of the doubles around \<open>x\<close>: \<open>2^(e-52)\<close> for
  \<open>2^e \<le> |x| < 2^(e+1)\<close>, and \<open>denorm\<close> below \<open>2^-1022\<close>. \<open>rnd x\<close> is the double nearest
  to \<open>x\<close>, a tie going to the even multiplier: the value of a decimal literal, and the
  result of every arithmetic operation on the exact result. \<open>fsub\<close> and \<open>fadd\<close> are the
  float operators \<open>-\<close> and \<open>+\<close>. Infinities and NaN are left out: the cursors below start
  at a finite constant and only lose steps of at most 20, which never overflows.
\<close>

definition denorm :: real where
  "denorm = 1 / 2 ^ 1074"

definition ulp_exp :: "real \<Rightarrow> nat" where
  "ulp_exp x = nat (bitlen \<lfloor>\<bar>x\<bar> / denorm\<rfloor> - 53)"

definition ulp :: "real \<Rightarrow> real" where
  "ulp x = 2 ^ ulp_exp x * denorm"

definition rnd :: "real \<Rightarrow> real" where
  "rnd x = of_int (round_half_even (x / ulp x)) * ulp x"

definition is_double :: "real \<Rightarrow> bool" where
  "is_double x = (rnd x = x)"

definition fsub :: "real \<Rightarrow> real \<Rightarrow> real" where
  "fsub a b = rnd (a - b)"

definition fadd :: "real \<Rightarrow> real \<Rightarrow> real" where
  "fadd a b = rnd (a + b)"

text \<open>
  \<open>f"{size}"\<close> is \<open>repr(size)\<close>. For a float that holds a whole number below \<open>10^16\<close> it
  is the digits of the number and \<open>.0\<close>, as for the sizes 18.0, 9.0, 12.0 and 10.0 that
  the layout passes; for every other float it is the shortest decimal string that reads
  back as the same float, which the table \<open>repr_float\<close> of the runtime gives.
\<close>

definition float_repr :: "runtime \<Rightarrow> real \<Rightarrow> str" where
  "float_repr db v =
     (if v = of_int \<lfloor>v\<rfloor> \<and> \<bar>v\<bar> < 10 ^ 16
      then (if v < 0 then [45] else []) @ str_nat (nat \<lfloor>\<bar>v\<bar>\<rfloor>) @ lit ''.0''
      else repr_float db v)"

definition text_cmd :: "runtime \<Rightarrow> real \<Rightarrow> real \<Rightarrow> str \<Rightarrow> str \<Rightarrow> real \<Rightarrow> str" where
  "text_cmd db px py text font fsize =
     lit ''BT /'' @ font @ lit '' '' @ float_repr db fsize @ lit '' Tf 1 0 0 1 ''
     @ fmt_fixed 2 px @ lit '' '' @ fmt_fixed 2 py @ lit '' Tm ('' @ escape_pdf_text text @ lit '') Tj ET''"

definition txt_cmd :: "real \<Rightarrow> real \<Rightarrow> str \<Rightarrow> str \<Rightarrow> real \<Rightarrow> str" where
  "txt_cmd px py text font fsize =
     lit ''BT /'' @ font @ lit '' '' @ fmt_fixed 1 fsize @ lit '' Tf 1 0 0 1 ''
     @ fmt_fixed 2 px @ lit '' '' @ fmt_fixed 2 py @ lit '' Tm ('' @ esc text @ lit '') Tj ET''"

section \<open>The layout of generate_shokaishelf_app_summary_pdf.py\<close>

text \<open>
  The constants of this layout are whole numbers, written as they are: every whole
  number up to \<open>2^53\<close> is a double.
\<close>

record Layout =
  commands :: "str list"
  y :: real
  left :: real
  body_size :: real
  body_leading :: real

text \<open>\<open>Layout.__init__\<close>.\<close>

definition Layout_init :: Layout where
  "Layout_init = \<lparr>commands = [], y = 752, left = 54, body_size = 10, body_leading = 12\<rparr>"

definition add_title :: "runtime \<Rightarrow> Layout \<Rightarrow> str \<Rightarrow> Layout" where
  "add_title db self text =
     self\<lparr>commands := commands self @ [text_cmd db (left self) (y self) text (lit ''F2'') 18],
          y := fsub (y self) 20\<rparr>"

definition add_subtitle :: "runtime \<Rightarrow> Layout \<Rightarrow> str \<Rightarrow> Layout" where
  "add_subtitle db self text =
     self\<lparr>commands := commands self @ [text_cmd db (left self) (y self) text (lit ''F1'') 9],
          y := fsub (y self) 16\<rparr>"

definition add_heading :: "runtime \<Rightarrow> Layout \<Rightarrow> str \<Rightarrow> Layout" where
  "add_heading db self text =
     self\<lparr>commands := commands self @ [text_cmd db (left self) (y self) text (lit ''F2'') 12],
          y := fsub (y self) 14\<rparr>"

text \<open>The loop of \<open>add_paragraph\<close> over the wrapped lines.\<close>

fun add_paragraph_lines :: "runtime \<Rightarrow> Layout \<Rightarrow> str list \<Rightarrow> Layout" where
  "add_paragraph_lines db self [] = self"
| "add_paragraph_lines db self (line # lines) =
     add_paragraph_lines db
       (self\<lparr>commands := commands self @ [text_cmd db (left self) (y self) line (lit ''F1'') (body_size self)],
             y := fsub (y self) (body_leading self)\<rparr>)
       lines"

text \<open>\<open>add_paragraph(text, width)\<close>; the source's default width is 98.\<close>

definition add_paragraph :: "runtime \<Rightarrow> Layout \<Rightarrow> str \<Rightarrow> int \<Rightarrow> error + Layout" where
  "add_paragraph db self text width =
     (case wrap db text width of
        Inl e \<Rightarrow> Inl e
      | Inr lines \<Rightarrow>
          Inr ((add_paragraph_lines db self lines)\<lparr>y := fsub (y (add_paragraph_lines db self lines)) 4\<rparr>))"

text \<open>The loop \<open>for extra in wrapped[1:]\<close> of \<open>add_bullets\<close>.\<close>

fun add_bullets_extra :: "runtime \<Rightarrow> Layout \<Rightarrow> str list \<Rightarrow> Layout" where
  "add_bullets_extra db self [] = self"
| "add_bullets_extra db self (extra # extras) =
     add_bullets_extra db
       (self\<lparr>commands := commands self
                @ [text_cmd db (fadd (left self) 12) (y self) extra (lit ''F1'') (body_size self)],
             y := fsub (y self) (body_leading self)\<rparr>)
       extras"

text \<open>The loop \<open>for item in items\<close>; an item that wraps to nothing is skipped.\<close>

fun add_bullets_items :: "runtime \<Rightarrow> Layout \<Rightarrow> str list \<Rightarrow> int \<Rightarrow> error + Layout" where
  "add_bullets_items db self [] width = Inr self"
| "add_bullets_items db self (item # items) width =
     (case wrap db item width of
        Inl e \<Rightarrow> Inl e
      | Inr wrapped \<Rightarrow>
          (case wrapped of
             [] \<Rightarrow> add_bullets_items db self items width
           | first # extras \<Rightarrow>
               add_bullets_items db
                 (add_bullets_extra db
                    (self\<lparr>commands := commands self
                             @ [text_cmd db (left self) (y self) (lit ''- '' @ first) (lit ''F1'') (body_size self)],
                          y := fsub (y self) (body_leading self)\<rparr>)
                    extras)
                 items width))"

text \<open>\<open>add_bullets(items, width)\<close>; the source's default width is 92.\<close>

definition add_bullets :: "runtime \<Rightarrow> Layout \<Rightarrow> str list \<Rightarrow> int \<Rightarrow> error + Layout" where
  "add_bullets db self items width =
     (case add_bullets_items db self items width of
        Inl e \<Rightarrow> Inl e
      | Inr self' \<Rightarrow> Inr (self'\<lparr>y := fsub (y self') 4\<rparr>))"

definition check_fit :: "Layout \<Rightarrow> error + unit" where
  "check_fit self =
     (if y self < 42 then Inl (RuntimeError ''Content overflowed page bounds; reduce content.'')
      else Inr ())"

section \<open>The page of generate_shokaishelf_engine_vergleich_de_pdf.py\<close>

text \<open>
  The literals 8.4, 10.4, 9.2, 11.2 and 10.6 of this page are no doubles; each stands
  for the double nearest to it.
\<close>

record Page =
  left :: real
  y :: real
  commands :: "str list"

text \<open>\<open>Page.__init__\<close>, and the methods \<open>title\<close>, \<open>sub\<close>, \<open>h\<close>, \<open>p\<close>, \<open>b\<close> and \<open>check\<close>.\<close>

definition Page_init :: Page where
  "Page_init = \<lparr>left = 42, y = 770, commands = []\<rparr>"

definition Page_title :: "Page \<Rightarrow> str \<Rightarrow> Page" where
  "Page_title self s =
     self\<lparr>commands := commands self @ [txt_cmd (left self) (y self) s (lit ''F2'') 16],
          y := fsub (y self) 18\<rparr>"

definition Page_sub :: "Page \<Rightarrow> str \<Rightarrow> Page" where
  "Page_sub self s =
     self\<lparr>commands := commands self @ [txt_cmd (left self) (y self) s (lit ''F1'') (rnd 8.4)],
          y := fsub (y self) 14\<rparr>"

definition Page_h :: "Page \<Rightarrow> str \<Rightarrow> Page" where
  "Page_h self s =
     self\<lparr>commands := commands self @ [txt_cmd (left self) (y self) s (lit ''F2'') (rnd 10.4)],
          y := fsub (y self) (rnd 11.2)\<rparr>"

text \<open>The loop of \<open>p\<close>; \<open>txt\<close> (here \<open>txt_cmd\<close>) is called with its defaults, font \<open>F1\<close> and size 9.2.\<close>

fun Page_p_lines :: "Page \<Rightarrow> str list \<Rightarrow> Page" where
  "Page_p_lines self [] = self"
| "Page_p_lines self (line # lines) =
     Page_p_lines
       (self\<lparr>commands := commands self @ [txt_cmd (left self) (y self) line (lit ''F1'') (rnd 9.2)],
             y := fsub (y self) (rnd 10.6)\<rparr>)
       lines"

text \<open>\<open>p(s, width)\<close>; the source's default width is 118.\<close>

definition Page_p :: "runtime \<Rightarrow> Page \<Rightarrow> str \<Rightarrow> int \<Rightarrow> error + Page" where
  "Page_p db self s width =
     (case wrap db s width of
        Inl e \<Rightarrow> Inl e
      | Inr lines \<Rightarrow> Inr ((Page_p_lines self lines)\<lparr>y := fsub (y (Page_p_lines self lines)) 2\<rparr>))"

text \<open>The loop \<open>for line in lines[1:]\<close> of \<open>b\<close>, and the loop \<open>for item in items\<close>.\<close>

fun Page_b_extra :: "Page \<Rightarrow> str list \<Rightarrow> Page" where
  "Page_b_extra self [] = self"
| "Page_b_extra self (line # lines) =
     Page_b_extra
       (self\<lparr>commands := commands self
                @ [txt_cmd (fadd (left self) 10) (y self) line (lit ''F1'') (rnd 9.2)],
             y := fsub (y self) (rnd 10.6)\<rparr>)
       lines"

fun Page_b_items :: "runtime \<Rightarrow> Page \<Rightarrow> str list \<Rightarrow> int \<Rightarrow> error + Page" where
  "Page_b_items db self [] width = Inr self"
| "Page_b_items db self (item # items) width =
     (case wrap db item width of
        Inl e \<Rightarrow> Inl e
      | Inr lines \<Rightarrow>
          (case lines of
             [] \<Rightarrow> Page_b_items db self items width
           | first # extras \<Rightarrow>
               Page_b_items db
                 (Page_b_extra
                    (self\<lparr>commands := commands self
                             @ [txt_cmd (left self) (y self) (lit ''- '' @ first) (lit ''F1'') (rnd 9.2)],
                          y := fsub (y self) (rnd 10.6)\<rparr>)
                    extras)
                 items width))"

text \<open>\<open>b(items, width)\<close>; the source's default width is 113.\<close>

definition Page_b :: "runtime \<Rightarrow> Page \<Rightarrow> str list \<Rightarrow> int \<Rightarrow> error + Page" where
  "Page_b db self items width =
     (case Page_b_items db self items width of
        Inl e \<Rightarrow> Inl e
      | Inr self' \<Rightarrow> Inr (self'\<lparr>y := fsub (y self') 2\<rparr>))"

definition Page_check :: "Page \<Rightarrow> error + unit" where
  "Page_check self =
     (if y self < 38 then Inl (RuntimeError ''Seite ueberfuellt, Inhalt kuerzen.'') else Inr ())"

section \<open>States of the layout and tables for ASCII text\<close>

text \<open>
  The states of a \<open>Layout\<close>: the one \<open>__init__\<close> builds and those the placement methods
  lead to when they return.
\<close>

inductive reachable :: "runtime \<Rightarrow> Layout \<Rightarrow> bool" for db :: runtime where
  reach_init: "reachable db Layout_init"
| reach_title: "reachable db s \<Longrightarrow> reachable db (add_title db s text)"
| reach_subtitle: "reachable db s \<Longrightarrow> reachable db (add_subtitle db s text)"
| reach_heading: "reachable db s \<Longrightarrow> reachable db (add_heading db s text)"
| reach_paragraph: "reachable db s \<Longrightarrow> add_paragraph db s text width = Inr s' \<Longrightarrow> reachable db s'"
| reach_bullets: "reachable db s \<Longrightarrow> add_bullets db s items width = Inr s' \<Longrightarrow> reachable db s'"

text \<open>
  Tables with no word character beyond ASCII and nothing for the floats that \<open>float_repr\<close>
  hands on; with ASCII text and whole sizes the program never consults the tables, so any
  tables give the same result there.
\<close>

definition ascii_db :: runtime where
  "ascii_db = \<lparr>isalnum = (\<lambda>c. False), isdecimal = (\<lambda>c. False), repr_float = (\<lambda>v. [])\<rparr>"

text \<open>
  The page after \<open>Page()\<close> and \<open>p('x' * 169, width=1)\<close>, a paragraph of 169 lines of one
  letter.
\<close>

definition page_169 :: "error + Page" where
  "page_169 = Page_p ascii_db Page_init (replicate 169 120) 1"

section \<open>Plain words\<close>

text \<open>
  A plain word for the width \<open>w\<close>: not empty, at most \<open>w\<close> characters, none of them a
  space of any kind or a hyphen. \<open>sep_chunks\<close> lists words with a blank between
  neighbours, the chunks of the text that joins them by single blanks. \<open>pieces n xs\<close>
  cuts \<open>xs\<close> into consecutive parts of \<open>n\<close> elements, the last one shorter when the
  length asks for it.
\<close>

definition plain_char :: "nat \<Rightarrow> bool" where
  "plain_char c = (\<not> is_space c \<and> c \<noteq> 45)"

definition plain_word :: "nat \<Rightarrow> str \<Rightarrow> bool" where
  "plain_word w word = (word \<noteq> [] \<and> length word \<le> w \<and> list_all plain_char word)"

fun sep_chunks :: "str list \<Rightarrow> str list" where
  "sep_chunks [] = []"
| "sep_chunks [w] = [w]"
| "sep_chunks (w # v # vs) = w # [32] # sep_chunks (v # vs)"

function pieces :: "nat \<Rightarrow> 'a list \<Rightarrow> 'a list list" where
  "pieces n xs = (case xs of [] \<Rightarrow> [] | x # _ \<Rightarrow> if n = 0 then [xs] else take n xs # pieces n (drop n xs))"
  by pat_completeness auto
termination
  by (relation "measure (\<lambda>(n, xs). length xs)") auto

declare pieces.simps [simp del]

section \<open>Decimal numbers and the Latin-1 encoder\<close>

lemma lit_latin1: "list_all (\<lambda>c. c < 256) (lit s)"
  unfolding lit_def list_all_iff
proof
  fix c :: nat assume "c \<in> set (map of_char s)"
  then obtain x where "c = (of_char x :: nat)" by auto
  moreover have "(of_char x :: nat) mod 256 = of_char x" by (rule of_char_mod_256)
  ultimately show "c < 256"
    by (metis mod_less_divisor zero_less_numeral)
qed

lemma str_nat_digits: "list_all is_digit (str_nat n)"
proof (induction n rule: str_nat.induct)
  case (1 n)
  show ?case
  proof (cases "n < 10")
    case True
    then show ?thesis by (subst str_nat.simps) (simp add: is_digit_def)
  next
    case False
    have "n mod 10 < 10" by simp
    then have "is_digit (48 + n mod 10)" unfolding is_digit_def by linarith
    with False 1 show ?thesis by (subst str_nat.simps) simp
  qed
qed

lemma str_nat_latin1: "list_all (\<lambda>c. c < 256) (str_nat n)"
  using str_nat_digits [of n] by (auto simp: list_all_iff is_digit_def)

lemma fmt_010d_digits: "list_all is_digit (fmt_010d n)"
  using str_nat_digits [of n] by (auto simp: fmt_010d_def list_all_iff is_digit_def)

lemma fmt_010d_latin1: "list_all (\<lambda>c. c < 256) (fmt_010d n)"
  using fmt_010d_digits [of n] by (auto simp: list_all_iff is_digit_def)

lemma encode_latin1_ok: "list_all (\<lambda>c. c < 256) s \<Longrightarrow> encode_latin1 s = Inr s"
  by (simp add: encode_latin1_def)

lemmas latin1_simps = lit_latin1 str_nat_latin1 fmt_010d_latin1

lemma foldl_digits:
  "foldl (\<lambda>a c. 10 * a + (c - 48)) a ds = a * 10 ^ length ds + foldl (\<lambda>a c. 10 * a + (c - (48::nat))) 0 ds"
proof (induction ds arbitrary: a)
  case Nil show ?case by simp
next
  case (Cons d ds)
  let ?f = "\<lambda>a c. 10 * a + (c - (48::nat))"
  have a: "foldl ?f (10 * a + (d - 48)) ds = (10 * a + (d - 48)) * 10 ^ length ds + foldl ?f 0 ds"
    by (rule Cons.IH)
  have b: "foldl ?f (d - 48) ds = (d - 48) * 10 ^ length ds + foldl ?f 0 ds"
    by (rule Cons.IH)
  have "foldl ?f a (d # ds) = foldl ?f (10 * a + (d - 48)) ds" by simp
  moreover have "foldl ?f 0 (d # ds) = foldl ?f (d - 48) ds" by simp
  ultimately show ?case unfolding a b by (simp add: algebra_simps)
qed

lemma foldl_str_nat: "foldl (\<lambda>a c. 10 * a + (c - 48)) 0 (str_nat n) = n"
proof (induction n rule: str_nat.induct)
  case (1 n)
  let ?f = "\<lambda>a c. 10 * a + (c - (48::nat))"
  show ?case
  proof (cases "n < 10")
    case True then show ?thesis by (subst str_nat.simps) simp
  next
    case False
    then have ih: "foldl ?f 0 (str_nat (n div 10)) = n div 10" using 1 by simp
    have "str_nat n = str_nat (n div 10) @ [48 + n mod 10]"
      using False by (subst str_nat.simps) simp
    then have "foldl ?f 0 (str_nat n) = 10 * foldl ?f 0 (str_nat (n div 10)) + n mod 10"
      by simp
    then show ?thesis unfolding ih by simp
  qed
qed

lemma foldl_zeros: "foldl (\<lambda>a c. 10 * a + (c - 48)) 0 (replicate k 48) = (0::nat)"
  by (induction k) simp_all

lemma read_nat_digits: "list_all is_digit ds \<Longrightarrow> \<not> is_digit c \<Longrightarrow> read_nat (ds @ c # rest) = foldl (\<lambda>a c. 10 * a + (c - 48)) 0 ds"
  unfolding read_nat_def by (simp add: takeWhile_append2 list_all_iff)

lemma read_nat_str_nat: "\<not> is_digit c \<Longrightarrow> read_nat (str_nat n @ c # rest) = n"
  by (simp add: read_nat_digits str_nat_digits foldl_str_nat)

lemma read_nat_fmt_010d: "\<not> is_digit c \<Longrightarrow> read_nat (fmt_010d n @ c # rest) = n"
  using read_nat_digits [OF fmt_010d_digits, of c n rest]
  by (simp add: fmt_010d_def foldl_zeros foldl_str_nat)

section \<open>What the serializers write\<close>

lemma obj_head_ok: "encode_latin1 (str_nat i @ lit '' 0 obj'' @ [10]) = Inr (obj_token i @ [10])"
  by (rule trans [OF encode_latin1_ok]) (simp_all add: latin1_simps obj_token_def)

lemma xref_entry_ok: "encode_latin1 (fmt_010d off @ lit '' 00000 n '' @ [10]) = Inr (xref_entry off)"
  by (rule trans [OF encode_latin1_ok]) (simp_all add: latin1_simps xref_entry_def)

lemma build_pdf_objs_eq:
  "build_pdf_objs i objs (out, offs) = Inr (out @ objs_bytes i objs, offs @ obj_starts (length out) i objs)"
  by (induction objs arbitrary: i out offs) (simp_all add: obj_head_ok)

lemma write_pdf_objs_eq:
  "write_pdf_objs i objs (out, offs) = Inr (out @ objs_bytes i objs, offs @ obj_starts (length out) i objs)"
  by (induction objs arbitrary: i out offs) (simp_all add: obj_head_ok)

lemma build_pdf_xref_eq: "build_pdf_xref offs out = Inr (out @ concat (map xref_entry offs))"
  by (induction offs arbitrary: out) (simp_all add: xref_entry_ok)

lemma write_pdf_xref_eq: "write_pdf_xref offs out = Inr (out @ concat (map xref_entry offs))"
  by (induction offs arbitrary: out) (simp_all add: xref_entry_ok)

lemma xref_head_ok:
  "encode_latin1 (lit ''xref'' @ [10] @ lit ''0 '' @ str_nat (n + 1) @ [10]) = Inr (lit ''xref'' @ [10] @ lit ''0 '' @ str_nat (n + 1) @ [10])"
  by (rule encode_latin1_ok) (simp add: latin1_simps)

lemma trailer_ok:
  "encode_latin1 (lit ''trailer'' @ [10]
     @ lit ''<< /Size '' @ str_nat (n + 1) @ lit '' /Root 1 0 R >>'' @ [10]
     @ lit ''startxref'' @ [10] @ str_nat xref @ [10] @ lit ''%%EOF'' @ [10]) = Inr (trailer_bytes n xref)"
  unfolding trailer_bytes_def by (rule encode_latin1_ok) (simp add: latin1_simps)

lemma tl_sing_append: "tl ([x] @ xs) = xs"
  by simp

lemma build_pdf_eq:
  "build_pdf objects =
     Inr (pdf_header @ objs_bytes 1 objects @ xref_head (length objects)
          @ concat (map xref_entry (obj_starts (length pdf_header) 1 objects))
          @ trailer_bytes (length objects) (length (pdf_header @ objs_bytes 1 objects)))"
  by (simp only: build_pdf_def build_pdf_objs_eq sum.case prod.case Let_def xref_head_ok
        build_pdf_xref_eq trailer_ok tl_sing_append append_assoc xref_head_def)

lemma write_pdf_assemble_eq:
  "write_pdf_assemble objects =
     Inr (pdf_header @ objs_bytes 1 objects @ xref_head (length objects)
          @ concat (map xref_entry (obj_starts (length pdf_header) 1 objects))
          @ trailer_bytes (length objects) (length (pdf_header @ objs_bytes 1 objects)))"
  by (simp only: write_pdf_assemble_def write_pdf_objs_eq sum.case prod.case Let_def xref_head_ok
        write_pdf_xref_eq trailer_ok tl_sing_append append_assoc xref_head_def)

lemma build_pdf_offsets_eq: "build_pdf_offsets objects = 0 # obj_starts (length pdf_header) 1 objects"
  by (simp add: build_pdf_offsets_def build_pdf_objs_eq)

lemma write_pdf_offsets_eq: "write_pdf_offsets objects = 0 # obj_starts (length pdf_header) 1 objects"
  by (simp add: write_pdf_offsets_def write_pdf_objs_eq)

lemma length_obj_starts: "length (obj_starts start i objs) = length objs"
  by (induction objs arbitrary: start i) simp_all

lemma obj_starts_nth:
  "k < length objs \<Longrightarrow>
   \<exists>pre suf. objs_bytes i objs = pre @ obj_token (i + k) @ suf \<and> obj_starts start i objs ! k = start + length pre"
proof (induction objs arbitrary: k i start)
  case Nil then show ?case by simp
next
  case (Cons obj objs)
  show ?case
  proof (cases k)
    case 0
    have "objs_bytes i (obj # objs) = [] @ obj_token (i + 0) @ ([10] @ obj @ [10] @ lit ''endobj'' @ [10]) @ objs_bytes (i + 1) objs"
      by simp
    moreover have "obj_starts start i (obj # objs) ! 0 = start + length ([]::bytes)" by simp
    ultimately show ?thesis unfolding 0 by blast
  next
    case (Suc j)
    let ?b = "obj_token i @ [10] @ obj @ [10] @ lit ''endobj'' @ [10]"
    from Cons.prems Suc have "j < length objs" by simp
    from Cons.IH [OF this, of "i + 1" "start + length ?b"]
    obtain pre suf where ps: "objs_bytes (i + 1) objs = pre @ obj_token (i + 1 + j) @ suf"
      "obj_starts (start + length ?b) (i + 1) objs ! j = start + length ?b + length pre" by blast
    have "objs_bytes i (obj # objs) = (?b @ pre) @ obj_token (i + k) @ suf"
      using ps(1) Suc by simp
    moreover have "obj_starts start i (obj # objs) ! k = start + length (?b @ pre)"
      using ps(2) Suc by simp
    ultimately show ?thesis by blast
  qed
qed

lemma drop_length_append: "drop (length a) (a @ b) = b"
  by simp

lemma read_nat_xref_entry: "read_nat (xref_entry off) = off"
proof -
  have "lit '' 00000 n '' @ [10] = 32 # (lit ''00000 n '' @ [10])" by (simp add: lit_def)
  then have "xref_entry off = fmt_010d off @ 32 # (lit ''00000 n '' @ [10])"
    by (simp add: xref_entry_def)
  moreover have "\<not> is_digit 32" by (simp add: is_digit_def)
  ultimately show ?thesis by (simp add: read_nat_fmt_010d)
qed

lemma serialized_offsets:
  assumes "1 \<le> i" and "i \<le> length objects"
  defines "offs \<equiv> 0 # obj_starts (length pdf_header) 1 objects"
  defines "pdf \<equiv> pdf_header @ objs_bytes 1 objects @ xref_head (length objects)
          @ concat (map xref_entry (tl offs))
          @ trailer_bytes (length objects) (length (pdf_header @ objs_bytes 1 objects))"
  shows "prefix (obj_token i) (drop (offs ! i) pdf)" and "length offs = length objects + 1"
proof -
  define k where "k = i - 1"
  from assms(1,2) have k: "i = k + 1" "k < length objects"
    by (simp_all add: k_def)
  from obj_starts_nth [OF k(2), of 1 "length pdf_header"]
  obtain pre suf where ps: "objs_bytes 1 objects = pre @ obj_token (1 + k) @ suf"
    "obj_starts (length pdf_header) 1 objects ! k = length pdf_header + length pre" by blast
  have o: "offs ! i = length (pdf_header @ pre)" using ps(2) k by (simp add: offs_def)
  have "pdf = (pdf_header @ pre) @ obj_token i @ (suf @ xref_head (length objects)
          @ concat (map xref_entry (tl offs))
          @ trailer_bytes (length objects) (length (pdf_header @ objs_bytes 1 objects)))"
    unfolding pdf_def using ps(1) k by simp
  then have "drop (offs ! i) pdf = obj_token i @ (suf @ xref_head (length objects)
          @ concat (map xref_entry (tl offs))
          @ trailer_bytes (length objects) (length (pdf_header @ objs_bytes 1 objects)))"
    unfolding o by (simp only: drop_length_append)
  then show "prefix (obj_token i) (drop (offs ! i) pdf)"
    by (simp only: prefixI)
  show "length offs = length objects + 1" by (simp add: offs_def length_obj_starts)
qed

lemma build_pdf_located:
  assumes "1 \<le> i" and "i \<le> length objects"
  shows "\<exists>pdf body trailer. build_pdf objects = Inr pdf
           \<and> length (build_pdf_offsets objects) = length objects + 1
           \<and> pdf = body @ xref_head (length objects)
                   @ concat (map xref_entry (tl (build_pdf_offsets objects))) @ trailer
           \<and> prefix (obj_token i) (drop (build_pdf_offsets objects ! i) pdf)"
proof (intro exI conjI)
  show "build_pdf objects = Inr (pdf_header @ objs_bytes 1 objects @ xref_head (length objects)
          @ concat (map xref_entry (obj_starts (length pdf_header) 1 objects))
          @ trailer_bytes (length objects) (length (pdf_header @ objs_bytes 1 objects)))"
    by (rule build_pdf_eq)
  show "length (build_pdf_offsets objects) = length objects + 1"
    unfolding build_pdf_offsets_eq by (rule serialized_offsets(2) [OF assms])
  show "pdf_header @ objs_bytes 1 objects @ xref_head (length objects)
          @ concat (map xref_entry (obj_starts (length pdf_header) 1 objects))
          @ trailer_bytes (length objects) (length (pdf_header @ objs_bytes 1 objects))
      = (pdf_header @ objs_bytes 1 objects) @ xref_head (length objects)
          @ concat (map xref_entry (tl (build_pdf_offsets objects)))
          @ trailer_bytes (length objects) (length (pdf_header @ objs_bytes 1 objects))"
    unfolding build_pdf_offsets_eq list.sel by (simp only: append_assoc)
  show "prefix (obj_token i) (drop (build_pdf_offsets objects ! i)
         (pdf_header @ objs_bytes 1 objects @ xref_head (length objects)
          @ concat (map xref_entry (obj_starts (length pdf_header) 1 objects))
          @ trailer_bytes (length objects) (length (pdf_header @ objs_bytes 1 objects))))"
    using serialized_offsets(1) [OF assms] unfolding build_pdf_offsets_eq list.sel .
qed

lemma write_pdf_located:
  assumes "1 \<le> i" and "i \<le> length objects"
  shows "\<exists>pdf body trailer. write_pdf_assemble objects = Inr pdf
           \<and> length (write_pdf_offsets objects) = length objects + 1
           \<and> pdf = body @ xref_head (length objects)
                   @ concat (map xref_entry (tl (write_pdf_offsets objects))) @ trailer
           \<and> prefix (obj_token i) (drop (write_pdf_offsets objects ! i) pdf)"
proof (intro exI conjI)
  show "write_pdf_assemble objects = Inr (pdf_header @ objs_bytes 1 objects @ xref_head (length objects)
          @ concat (map xref_entry (obj_starts (length pdf_header) 1 objects))
          @ trailer_bytes (length objects) (length (pdf_header @ objs_bytes 1 objects)))"
    by (rule write_pdf_assemble_eq)
  show "length (write_pdf_offsets objects) = length objects + 1"
    unfolding write_pdf_offsets_eq by (rule serialized_offsets(2) [OF assms])
  show "pdf_header @ objs_bytes 1 objects @ xref_head (length objects)
          @ concat (map xref_entry (obj_starts (length pdf_header) 1 objects))
          @ trailer_bytes (length objects) (length (pdf_header @ objs_bytes 1 objects))
      = (pdf_header @ objs_bytes 1 objects) @ xref_head (length objects)
          @ concat (map xref_entry (tl (write_pdf_offsets objects)))
          @ trailer_bytes (length objects) (length (pdf_header @ objs_bytes 1 objects))"
    unfolding write_pdf_offsets_eq list.sel by (simp only: append_assoc)
  show "prefix (obj_token i) (drop (write_pdf_offsets objects ! i)
         (pdf_header @ objs_bytes 1 objects @ xref_head (length objects)
          @ concat (map xref_entry (obj_starts (length pdf_header) 1 objects))
          @ trailer_bytes (length objects) (length (pdf_header @ objs_bytes 1 objects))))"
    using serialized_offsets(1) [OF assms] unfolding write_pdf_offsets_eq list.sel .
qed

text \<open>
  Claim C1. For every list of object bodies and every object number \<open>i\<close> from 1 to the
  number of objects, both serializers return a file; the cross-reference table of that file
  is written from the list \<open>offsets\<close>, one entry per object in order; the entry of
  object \<open>i\<close> reads back as \<open>offsets[i]\<close>; and at byte index \<open>offsets[i]\<close> of the
  final output the string \<open>"{i} 0 obj"\<close> begins.
\<close>

theorem xref_offsets_locate_objects:
  assumes "1 \<le> i" and "i \<le> length objects"
  shows "(\<exists>pdf body trailer. write_pdf_assemble objects = Inr pdf
            \<and> length (write_pdf_offsets objects) = length objects + 1
            \<and> pdf = body @ xref_head (length objects)
                    @ concat (map xref_entry (tl (write_pdf_offsets objects))) @ trailer
            \<and> prefix (obj_token i) (drop (write_pdf_offsets objects ! i) pdf))
       \<and> (\<exists>pdf body trailer. build_pdf objects = Inr pdf
            \<and> length (build_pdf_offsets objects) = length objects + 1
            \<and> pdf = body @ xref_head (length objects)
                    @ concat (map xref_entry (tl (build_pdf_offsets objects))) @ trailer
            \<and> prefix (obj_token i) (drop (build_pdf_offsets objects ! i) pdf))
       \<and> read_nat (xref_entry (write_pdf_offsets objects ! i)) = write_pdf_offsets objects ! i
       \<and> read_nat (xref_entry (build_pdf_offsets objects ! i)) = build_pdf_offsets objects ! i"
  by (intro conjI write_pdf_located [OF assms] build_pdf_located [OF assms] read_nat_xref_entry)

lemma offsets_example:
  "build_pdf_offsets [lit ''A'', lit ''BC''] = [0, 15, 32]"
  "write_pdf_offsets [lit ''A'', lit ''BC''] = [0, 15, 32]"
  by (simp_all add: build_pdf_offsets_eq write_pdf_offsets_eq pdf_header_def obj_token_def lit_def str_nat.simps)

text \<open>Two objects \<open>A\<close> and \<open>BC\<close>: the second one starts at byte 32.\<close>

theorem xref_offsets_locate_objects_witness:
  "(1::nat) \<le> 2 \<and> 2 \<le> length [lit ''A'', lit ''BC'']
   \<and> write_pdf_offsets [lit ''A'', lit ''BC''] ! 2 = 32
   \<and> build_pdf_offsets [lit ''A'', lit ''BC''] ! 2 = 32
   \<and> (\<exists>pdf. write_pdf_assemble [lit ''A'', lit ''BC''] = Inr pdf \<and> prefix (obj_token 2) (drop 32 pdf))
   \<and> (\<exists>pdf. build_pdf [lit ''A'', lit ''BC''] = Inr pdf \<and> prefix (obj_token 2) (drop 32 pdf))
   \<and> read_nat (xref_entry 32) = 32"
proof -
  have h: "(1::nat) \<le> 2" "2 \<le> length [lit ''A'', lit ''BC'']" by simp_all
  from xref_offsets_locate_objects [OF h] show ?thesis
    unfolding offsets_example by auto
qed

text \<open>
  Claim C2. For every command list, the sixth object built by either generator is
  \<open><< /Length n >>\<close>, \<open>stream\<close>, the encoded payload and \<open>endstream\<close>, where the integer
  \<open>n\<close> read after \<open>/Length\<close> is exactly the number of bytes of the encoded payload.
\<close>

theorem length_field_is_payload_length:
  "(\<exists>objects. write_pdf_objects (build_pdf_stream cmds) = Inr objects
      \<and> length objects = 6
      \<and> objects ! 5 = lit ''<< /Length '' @ str_nat (length (build_pdf_stream cmds)) @ lit '' >>'' @ [10]
                       @ lit ''stream'' @ [10] @ build_pdf_stream cmds @ lit ''endstream''
      \<and> read_nat (drop (length (lit ''<< /Length '')) (objects ! 5)) = length (build_pdf_stream cmds))
   \<and> (\<exists>objs. main_objs (main_stream cmds) = Inr objs
      \<and> length objs = 6
      \<and> objs ! 5 = lit ''<< /Length '' @ str_nat (length (main_stream cmds)) @ lit '' >>'' @ [10]
                    @ lit ''stream'' @ [10] @ main_stream cmds @ lit ''endstream''
      \<and> read_nat (drop (length (lit ''<< /Length '')) (objs ! 5)) = length (main_stream cmds))"
proof -
  have enc: "encode_latin1 (lit ''<< /Length '' @ str_nat n @ lit '' >>'' @ [10] @ lit ''stream'' @ [10])
      = Inr (lit ''<< /Length '' @ str_nat n @ lit '' >>'' @ [10] @ lit ''stream'' @ [10])" for n
    by (rule encode_latin1_ok) (simp add: latin1_simps)
  have sp: "lit '' >>'' = 32 # lit ''>>''" by (simp add: lit_def)
  have rd: "read_nat (drop (length (lit ''<< /Length ''))
       (lit ''<< /Length '' @ str_nat n @ lit '' >>'' @ [10] @ lit ''stream'' @ [10] @ p @ lit ''endstream'')) = n" for n p
    unfolding drop_length_append sp
    by (simp add: read_nat_str_nat is_digit_def)
  show ?thesis
    unfolding write_pdf_objects_def main_objs_def enc sum.case
    using rd by simp
qed

text \<open>
  Claim C9. For every list of object bodies, the bytes assembled by \<open>write_pdf\<close> of the
  app-summary generator (header, objects, cross-reference table, trailer) are the bytes
  returned by \<open>build_pdf\<close> of the engine-vergleich generator on the same list; and
  \<open>write_pdf\<close> on a content stream writes what \<open>build_pdf\<close> returns on the object list
  that the other \<open>main\<close> builds from the same stream.
\<close>

theorem serializers_agree:
  "write_pdf_assemble objects = build_pdf objects
   \<and> write_pdf content_stream =
       (case main_objs content_stream of Inl e \<Rightarrow> Inl e | Inr objs \<Rightarrow> build_pdf objs)"
proof -
  have a: "write_pdf_assemble objs = build_pdf objs" for objs
    unfolding write_pdf_assemble_eq build_pdf_eq ..
  have "''<< /Type /Page /Parent 2 0 R /MediaBox [0 0 612 792] '' @
        ''/Resources << /Font << /F1 4 0 R /F2 5 0 R >> >> /Contents 6 0 R >>''
      = ''<< /Type /Page /Parent 2 0 R /MediaBox [0 0 612 792] /Resources << /Font << /F1 4 0 R /F2 5 0 R >> >> /Contents 6 0 R >>''"
    by simp
  then have "lit ''<< /Type /Page /Parent 2 0 R /MediaBox [0 0 612 792] '' @
        lit ''/Resources << /Font << /F1 4 0 R /F2 5 0 R >> >> /Contents 6 0 R >>''
      = lit ''<< /Type /Page /Parent 2 0 R /MediaBox [0 0 612 792] /Resources << /Font << /F1 4 0 R /F2 5 0 R >> >> /Contents 6 0 R >>''"
    unfolding lit_def map_append [symmetric] by (rule arg_cong)
  then have "write_pdf_objects content_stream = main_objs content_stream"
    unfolding write_pdf_objects_def main_objs_def by (simp only:)
  then show ?thesis unfolding write_pdf_def by (simp add: a split: sum.splits)
qed

section \<open>Escaping and the overflow check\<close>

lemma replace_single: "replace [a] new s = concat (map (\<lambda>c. if c = a then new else [c]) s)"
  by (induction s) auto

lemma escape_chars:
  "replace [41] [92, 41] (replace [40] [92, 40] (replace [92] [92, 92] s))
     = concat (map (\<lambda>c. if c = 92 \<or> c = 40 \<or> c = 41 then [92, c] else [c]) s)"
  unfolding replace_single by (induction s) auto

lemma unescape_plain: "c \<noteq> 92 \<Longrightarrow> unescape (c # rest) = c # unescape rest"
  by (cases rest) auto

lemma unescape_escaped:
  "unescape (concat (map (\<lambda>c. if c = 92 \<or> c = 40 \<or> c = 41 then [92, c] else [c]) s)) = s"
  by (induction s) (auto simp: unescape_plain)

text \<open>
  Claim C4. For every input string, both escapers substitute the backslash first and the
  two parentheses after it; the result puts one backslash before every backslash and
  parenthesis of the input and changes nothing else; and reading the escaped text back
  recovers the input exactly.
\<close>

theorem escape_then_unescape:
  "escape_pdf_text s = replace [41] [92, 41] (replace [40] [92, 40] (replace [92] [92, 92] s))
   \<and> escape_pdf_text s = concat (map (\<lambda>c. if c = 92 \<or> c = 40 \<or> c = 41 then [92, c] else [c]) s)
   \<and> unescape (escape_pdf_text s) = s
   \<and> esc s = replace [41] [92, 41] (replace [40] [92, 40] (replace [92] [92, 92] s))
   \<and> esc s = concat (map (\<lambda>c. if c = 92 \<or> c = 40 \<or> c = 41 then [92, c] else [c]) s)
   \<and> unescape (esc s) = s"
  unfolding escape_pdf_text_def esc_def escape_chars unescape_escaped by simp

text \<open>The text \<open>a\(b)\<close> with a backslash and both parentheses.\<close>

theorem escape_then_unescape_witness:
  "escape_pdf_text [97, 92, 40, 98, 41] = [97, 92, 92, 92, 40, 98, 92, 41]
   \<and> unescape (escape_pdf_text [97, 92, 40, 98, 41]) = [97, 92, 40, 98, 41]
   \<and> esc [97, 92, 40, 98, 41] = [97, 92, 92, 92, 40, 98, 92, 41]
   \<and> unescape (esc [97, 92, 40, 98, 41]) = [97, 92, 40, 98, 41]"
  using escape_then_unescape [of "[97, 92, 40, 98, 41]"] by simp

text \<open>
  Claim C3. For every layout state, \<open>check_fit\<close> raises its overflow error (in the source a
  \<open>RuntimeError\<close> whose message names the overflow) exactly when the cursor is strictly below
  the bottom threshold, 42 in the app-summary layout and 38 in the engine-vergleich page,
  and returns without raising exactly when the cursor is at or above it.
\<close>

theorem check_fit_threshold:
  "(check_fit s = Inl (RuntimeError ''Content overflowed page bounds; reduce content.'')) = (Layout.y s < 42)
   \<and> (check_fit s = Inr ()) = (42 \<le> Layout.y s)
   \<and> (Page_check p = Inl (RuntimeError ''Seite ueberfuellt, Inhalt kuerzen.'')) = (Page.y p < 38)
   \<and> (Page_check p = Inr ()) = (38 \<le> Page.y p)"
  by (auto simp: check_fit_def Page_check_def)

text \<open>The initial states pass; a cursor just below the threshold raises, one on it passes.\<close>

theorem check_fit_threshold_witness:
  "check_fit Layout_init = Inr ()
   \<and> check_fit (Layout_init\<lparr>Layout.y := 41\<rparr>) = Inl (RuntimeError ''Content overflowed page bounds; reduce content.'')
   \<and> check_fit (Layout_init\<lparr>Layout.y := 42\<rparr>) = Inr ()
   \<and> Page_check Page_init = Inr ()
   \<and> Page_check (Page_init\<lparr>Page.y := 37.9\<rparr>) = Inl (RuntimeError ''Seite ueberfuellt, Inhalt kuerzen.'')
   \<and> Page_check (Page_init\<lparr>Page.y := 38\<rparr>) = Inr ()"
  using check_fit_threshold [of Layout_init Page_init]
    check_fit_threshold [of "Layout_init\<lparr>Layout.y := 41\<rparr>" "Page_init\<lparr>Page.y := 37.9\<rparr>"]
    check_fit_threshold [of "Layout_init\<lparr>Layout.y := 42\<rparr>" "Page_init\<lparr>Page.y := 38\<rparr>"]
  by (simp add: Layout_init_def Page_init_def)

section \<open>Rounding to doubles\<close>

lemma round_half_even_int: "round_half_even (of_int n) = n"
  by (simp add: round_half_even_def)

lemma round_half_even_le: "t \<le> of_int n \<Longrightarrow> round_half_even t \<le> n"
proof -
  assume a: "t \<le> of_int n"
  have f: "\<lfloor>t\<rfloor> \<le> n" using floor_mono [OF a] by simp
  show ?thesis
  proof (cases "t = of_int \<lfloor>t\<rfloor>")
    case True
    then have "t - of_int \<lfloor>t\<rfloor> < 1 / 2" by simp
    then show ?thesis using f by (simp add: round_half_even_def)
  next
    case False
    then have "of_int \<lfloor>t\<rfloor> < t" using of_int_floor_le [of t] by linarith
    then have "of_int \<lfloor>t\<rfloor> < (of_int n :: real)" using a by linarith
    then have "\<lfloor>t\<rfloor> < n" by simp
    then show ?thesis by (simp add: round_half_even_def)
  qed
qed

lemma round_half_even_ge: "of_int n \<le> t \<Longrightarrow> n \<le> round_half_even t"
proof -
  assume a: "of_int n \<le> t"
  have "n \<le> \<lfloor>t\<rfloor>" using a by (simp add: le_floor_iff)
  then show ?thesis by (simp add: round_half_even_def)
qed

lemma denorm_pos: "0 < denorm"
  by (simp add: denorm_def)

lemma ulp_pos: "0 < ulp x"
  by (simp add: ulp_def denorm_pos)

lemma ulp_upper: "\<bar>x\<bar> < 2 ^ 53 * ulp x"
proof -
  define X where "X = \<bar>x\<bar> / denorm"
  define n where "n = \<lfloor>X\<rfloor>"
  have X0: "0 \<le> X" by (simp add: X_def denorm_pos less_imp_le)
  have n0: "0 \<le> n" using X0 by (simp add: n_def)
  have nb: "n < 2 ^ nat (bitlen n)"
  proof (cases "0 < n")
    case True
    then show ?thesis using bitlen_bounds [of n] by simp
  next
    case False
    then have "n = 0" using n0 by simp
    then show ?thesis by simp
  qed
  have "X < of_int n + 1" by (simp add: n_def)
  also have "\<dots> = of_int (n + 1)" by simp
  also have "\<dots> \<le> of_int (2 ^ nat (bitlen n))" using nb by (intro of_int_le_iff [THEN iffD2]) simp
  also have "\<dots> = 2 ^ nat (bitlen n)" by simp
  also have "\<dots> \<le> (2::real) ^ (53 + ulp_exp x)"
    by (intro power_increasing) (simp_all add: ulp_exp_def n_def X_def)
  finally have "X < 2 ^ 53 * 2 ^ ulp_exp x" by (simp add: power_add)
  then have "\<bar>x\<bar> < 2 ^ 53 * 2 ^ ulp_exp x * denorm"
    using denorm_pos by (simp add: X_def pos_divide_less_eq)
  then show ?thesis by (simp add: ulp_def mult.assoc)
qed

lemma ulp_lower: "0 < ulp_exp x \<Longrightarrow> 2 ^ 52 * ulp x \<le> \<bar>x\<bar>"
proof -
  assume a: "0 < ulp_exp x"
  define X where "X = \<bar>x\<bar> / denorm"
  define n where "n = \<lfloor>X\<rfloor>"
  have b: "53 < bitlen n" using a by (simp add: ulp_exp_def n_def X_def)
  then have npos: "0 < n" using bitlen_eq_zero_iff [of n] by (cases "0 < n") auto
  have e: "nat (bitlen n - 1) = 52 + ulp_exp x" using b by (simp add: ulp_exp_def n_def X_def)
  have "(2::int) ^ (52 + ulp_exp x) \<le> n" using bitlen_bounds [OF npos] e by simp
  then have "(of_int ((2::int) ^ (52 + ulp_exp x)) :: real) \<le> of_int n" by (rule of_int_le_iff [THEN iffD2])
  then have "(2::real) ^ (52 + ulp_exp x) \<le> of_int n" by simp
  also have "\<dots> \<le> X" by (simp add: n_def)
  finally have "2 ^ 52 * 2 ^ ulp_exp x \<le> X" by (simp add: power_add)
  then have "2 ^ 52 * 2 ^ ulp_exp x * denorm \<le> \<bar>x\<bar>"
    using denorm_pos by (simp add: X_def pos_le_divide_eq)
  then show ?thesis by (simp add: ulp_def mult.assoc)
qed

text \<open>The result of rounding has a significand of at most 53 bits.\<close>

lemma rnd_repr: "\<exists>k. rnd x = of_int k * (2 ^ ulp_exp x * denorm) \<and> \<bar>k\<bar> \<le> 2 ^ 53"
proof -
  define k where "k = round_half_even (x / ulp x)"
  have "\<bar>x\<bar> / ulp x < 2 ^ 53" using ulp_upper [of x] ulp_pos [of x] by (simp add: pos_divide_less_eq)
  then have b: "x / ulp x \<le> 2 ^ 53" "- (2 ^ 53) \<le> x / ulp x"
    using ulp_pos [of x] by (simp_all add: abs_if field_simps split: if_splits)
  have "x / ulp x \<le> of_int (2 ^ 53)" using b(1) by simp
  then have u: "k \<le> 2 ^ 53" unfolding k_def by (rule round_half_even_le)
  have "of_int (- (2 ^ 53)) \<le> x / ulp x" using b(2) by simp
  then have l: "- (2 ^ 53) \<le> k" unfolding k_def by (rule round_half_even_ge)
  have "rnd x = of_int k * (2 ^ ulp_exp x * denorm)" by (simp add: rnd_def k_def ulp_def)
  then show ?thesis using u l by (intro exI [of _ k]) simp
qed

lemma rnd_exact:
  assumes r: "r = of_int k * (2 ^ j * denorm)" and k: "\<bar>k\<bar> \<le> 2 ^ 53"
  shows "rnd r = r"
proof -
  define a where "a = ulp_exp r"
  have u: "ulp r = 2 ^ a * denorm" by (simp add: ulp_def a_def)
  have "\<exists>m. r / ulp r = of_int m"
  proof (cases "a \<le> j")
    case True
    then have "(2::real) ^ j = 2 ^ (j - a) * 2 ^ a" by (simp add: power_add [symmetric])
    then have "of_int k * (2 ^ j * denorm) / (2 ^ a * denorm) = (of_int (k * 2 ^ (j - a)) :: real)"
      using denorm_pos by simp
    then have "r / ulp r = of_int (k * 2 ^ (j - a))" by (simp only: u r [symmetric])
    then show ?thesis ..
  next
    case False
    then have apos: "0 < ulp_exp r" by (simp add: a_def)
    have "2 ^ 52 * (2 ^ a * denorm) \<le> \<bar>of_int k * (2 ^ j * denorm)\<bar>"
      using ulp_lower [OF apos] by (simp add: u r [symmetric])
    then have "2 ^ 52 * 2 ^ a * denorm \<le> \<bar>of_int k\<bar> * 2 ^ j * denorm"
      using denorm_pos by (simp add: abs_mult mult.assoc)
    then have le: "(2::real) ^ 52 * 2 ^ a \<le> \<bar>of_int k\<bar> * 2 ^ j" using denorm_pos by simp
    have kk: "\<bar>of_int k :: real\<bar> \<le> 2 ^ 53"
    proof -
      have "(of_int \<bar>k\<bar> :: real) \<le> of_int (2 ^ 53)" using k by (rule of_int_le_iff [THEN iffD2])
      then show ?thesis by simp
    qed
    have "(2::real) ^ 52 * 2 ^ a \<le> 2 ^ 53 * 2 ^ j"
      using le kk by (meson mult_right_mono order_trans zero_le_numeral zero_le_power)
    then have "(2::real) ^ (52 + a) \<le> 2 ^ (53 + j)" by (simp add: power_add)
    then have "52 + a \<le> 53 + j" by (simp add: power_le_imp_le_exp)
    then have aj: "a = Suc j" using False by simp
    have "(2::real) ^ 53 * 2 ^ j \<le> \<bar>of_int k\<bar> * 2 ^ j" using le by (simp add: aj)
    then have "(2::real) ^ 53 \<le> \<bar>of_int k\<bar>" by simp
    then have "\<bar>of_int k :: real\<bar> = 2 ^ 53" using kk by simp
    then have "(of_int k :: real) = 2 ^ 53 \<or> (of_int k :: real) = - (2 ^ 53)" by (simp add: abs_if split: if_splits)
    then have "of_int k * (2 ^ j * denorm) / (2 ^ a * denorm) = (of_int (2 ^ 52) :: real)
        \<or> of_int k * (2 ^ j * denorm) / (2 ^ a * denorm) = (of_int (- (2 ^ 52)) :: real)"
      using denorm_pos by (auto simp: aj)
    then have "r / ulp r = of_int (2 ^ 52) \<or> r / ulp r = of_int (- (2 ^ 52))"
      by (simp only: u r [symmetric])
    then show ?thesis by blast
  qed
  then obtain m where m: "r / ulp r = of_int m" ..
  have "rnd r = of_int m * ulp r" by (simp add: rnd_def m round_half_even_int)
  also have "\<dots> = r" using ulp_pos [of r] m by (simp add: field_simps)
  finally show ?thesis .
qed

lemma rnd_idem: "rnd (rnd x) = rnd x"
proof -
  obtain k where "rnd x = of_int k * (2 ^ ulp_exp x * denorm)" "\<bar>k\<bar> \<le> 2 ^ 53"
    using rnd_repr [of x] by blast
  then show ?thesis by (rule rnd_exact)
qed

lemma pow_denorm: "2 ^ 1074 * denorm = 1"
  by (simp add: denorm_def)

lemma pow_denorm_add: "2 ^ (1074 + n) * denorm = 2 ^ n"
  using pow_denorm by (simp add: power_add)

lemma rnd_int: "\<bar>z\<bar> \<le> 2 ^ 53 \<Longrightarrow> rnd (of_int z) = of_int z"
proof -
  assume a: "\<bar>z\<bar> \<le> 2 ^ 53"
  have "of_int z = of_int z * (2 ^ 1074 * denorm)" by (simp only: pow_denorm mult_1_right)
  then show ?thesis using a by (rule rnd_exact)
qed

text \<open>Rounding never passes a double.\<close>

lemma rnd_le:
  assumes xr: "x \<le> r" and r: "rnd r = r"
  shows "rnd x \<le> r"
proof -
  obtain k where rk: "r = of_int k * (2 ^ ulp_exp r * denorm)" and k: "\<bar>k\<bar> \<le> 2 ^ 53"
    using rnd_repr [of r] r by auto
  define j where "j = ulp_exp r"
  define a where "a = ulp_exp x"
  have u: "ulp x = 2 ^ a * denorm" by (simp add: ulp_def a_def)
  have kk: "\<bar>of_int k :: real\<bar> \<le> 2 ^ 53"
  proof -
    have "(of_int \<bar>k\<bar> :: real) \<le> of_int (2 ^ 53)" using k by (rule of_int_le_iff [THEN iffD2])
    then show ?thesis by simp
  qed
  show ?thesis
  proof (cases "a \<le> j")
    case True
    then have "(2::real) ^ j = 2 ^ (j - a) * 2 ^ a" by (simp add: power_add [symmetric])
    then have m: "r / ulp x = of_int (k * 2 ^ (j - a))"
      using denorm_pos rk by (simp add: u j_def [symmetric])
    have "x / ulp x \<le> r / ulp x" using xr ulp_pos [of x] by (simp add: divide_right_mono)
    then have "x / ulp x \<le> of_int (k * 2 ^ (j - a))" by (simp only: m)
    then have "round_half_even (x / ulp x) \<le> k * 2 ^ (j - a)" by (rule round_half_even_le)
    then have "(of_int (round_half_even (x / ulp x)) :: real) \<le> of_int (k * 2 ^ (j - a))"
      by (rule of_int_le_iff [THEN iffD2])
    then have "rnd x \<le> of_int (k * 2 ^ (j - a)) * ulp x"
      unfolding rnd_def using ulp_pos [of x] by (simp only: mult_le_cancel_right_pos)
    also have "\<dots> = r" using ulp_pos [of x] m by (simp add: field_simps)
    finally show ?thesis .
  next
    case False
    then have apos: "0 < ulp_exp x" and ja: "Suc j \<le> a" by (simp_all add: a_def)
    have lo: "2 ^ 52 * ulp x \<le> \<bar>x\<bar>" by (rule ulp_lower [OF apos])
    have "\<bar>r\<bar> = \<bar>of_int k\<bar> * (2 ^ j * denorm)"
      using denorm_pos by (subst rk) (simp add: abs_mult j_def)
    also have "\<dots> \<le> 2 ^ 53 * (2 ^ j * denorm)"
      using kk denorm_pos by (intro mult_right_mono) simp_all
    also have "\<dots> = 2 ^ 52 * (2 ^ Suc j * denorm)" by simp
    also have "\<dots> \<le> 2 ^ 52 * (2 ^ a * denorm)"
      using ja denorm_pos by (intro mult_left_mono mult_right_mono power_increasing) simp_all
    finally have rb: "\<bar>r\<bar> \<le> 2 ^ 52 * ulp x" by (simp add: u)
    show ?thesis
    proof (cases "x < 0")
      case True
      then have "x \<le> - (2 ^ 52 * ulp x)" using lo by simp
      then have "x / ulp x \<le> - (2 ^ 52)" using ulp_pos [of x] by (simp add: pos_divide_le_eq)
      then have "x / ulp x \<le> of_int (- (2 ^ 52))" by simp
      then have "round_half_even (x / ulp x) \<le> - (2 ^ 52)" by (rule round_half_even_le)
      then have "(of_int (round_half_even (x / ulp x)) :: real) \<le> of_int (- (2 ^ 52))"
        by (rule of_int_le_iff [THEN iffD2])
      then have "rnd x \<le> of_int (- (2 ^ 52)) * ulp x"
        unfolding rnd_def using ulp_pos [of x] by (simp only: mult_le_cancel_right_pos)
      also have "\<dots> = - (2 ^ 52 * ulp x)" by simp
      also have "\<dots> \<le> r" using rb by simp
      finally show ?thesis .
    next
      case False
      then have "2 ^ 52 * ulp x \<le> x" using lo by simp
      then have "x = r" using rb xr by simp
      then show ?thesis using r by simp
    qed
  qed
qed

lemma fsub_le: "is_double a \<Longrightarrow> 0 \<le> c \<Longrightarrow> fsub a c \<le> a"
  unfolding fsub_def is_double_def by (rule rnd_le) simp_all

lemma fsub_double: "is_double (fsub a c)"
  by (simp add: is_double_def fsub_def rnd_idem)

lemma fsub_int: "\<bar>a - c\<bar> \<le> 2 ^ 53 \<Longrightarrow> fsub (of_int a) (of_int c) = of_int (a - c)"
  using rnd_int [of "a - c"] by (simp add: fsub_def)

text \<open>The spacing at a number whose binade is known, for running \<open>rnd\<close> on a constant.\<close>

lemma pow_less_cancel:
  fixes m n :: nat
  assumes "c * (2 ^ m * denorm) < (2 * c) * (2 ^ n * denorm)" and "0 < (c::real)"
  shows "m \<le> n"
proof -
  have "c * denorm * 2 ^ m < c * denorm * 2 ^ Suc n" using assms(1) by (simp add: mult_ac)
  then have "(2::real) ^ m < 2 ^ Suc n" using assms(2) denorm_pos by simp
  then have "m < Suc n" by (rule power_less_imp_less_exp [rotated]) simp
  then show ?thesis by simp
qed

lemma ulp_exp_eq:
  assumes lo: "2 ^ 52 * (2 ^ a * denorm) \<le> \<bar>x\<bar>" and hi: "\<bar>x\<bar> < 2 ^ 53 * (2 ^ a * denorm)"
  shows "ulp_exp x = a"
proof -
  have p: "(2::real) ^ 53 = 2 * 2 ^ 52" by simp
  have "2 ^ 52 * (2 ^ a * denorm) < 2 ^ 53 * (2 ^ ulp_exp x * denorm)"
    using lo ulp_upper [of x] unfolding ulp_def by (rule le_less_trans)
  then have "2 ^ 52 * (2 ^ a * denorm) < (2 * 2 ^ 52) * (2 ^ ulp_exp x * denorm)" by (simp only: p)
  then have 1: "a \<le> ulp_exp x" by (rule pow_less_cancel) simp
  have 2: "ulp_exp x \<le> a"
  proof (cases "0 < ulp_exp x")
    case True
    have "2 ^ 52 * (2 ^ ulp_exp x * denorm) < 2 ^ 53 * (2 ^ a * denorm)"
      using ulp_lower [OF True] hi unfolding ulp_def by (rule le_less_trans)
    then have "2 ^ 52 * (2 ^ ulp_exp x * denorm) < (2 * 2 ^ 52) * (2 ^ a * denorm)" by (simp only: p)
    then show ?thesis by (rule pow_less_cancel) simp
  next
    case False
    then show ?thesis by simp
  qed
  from 1 2 show ?thesis by simp
qed

lemma rnd_frac:
  assumes n: "n \<le> 1074" and lo: "2 ^ 52 \<le> \<bar>x\<bar> * 2 ^ n" and hi: "\<bar>x\<bar> * 2 ^ n < 2 ^ 53"
  shows "rnd x = of_int (round_half_even (x * 2 ^ n)) / 2 ^ n"
proof -
  have d: "2 ^ (1074 - n) * denorm = 1 / (2::real) ^ n"
  proof -
    have "(2::real) ^ 1074 = 2 ^ (1074 - n) * 2 ^ n" using n by (simp add: power_add [symmetric])
    then have "(2::real) ^ (1074 - n) * 2 ^ n * denorm = 1" using pow_denorm by simp
    then show ?thesis by (simp add: field_simps)
  qed
  have l: "c * (1 / 2 ^ n) \<le> \<bar>x\<bar>" if "c \<le> \<bar>x\<bar> * 2 ^ n" for c :: real
    using that by (simp add: field_simps)
  have h: "\<bar>x\<bar> < c * (1 / 2 ^ n)" if "\<bar>x\<bar> * 2 ^ n < c" for c :: real
    using that by (simp add: field_simps)
  have "ulp_exp x = 1074 - n"
  proof (rule ulp_exp_eq)
    show "2 ^ 52 * (2 ^ (1074 - n) * denorm) \<le> \<bar>x\<bar>" unfolding d using lo by (rule l)
    show "\<bar>x\<bar> < 2 ^ 53 * (2 ^ (1074 - n) * denorm)" unfolding d using hi by (rule h)
  qed
  then have "ulp x = 1 / 2 ^ n" by (simp add: ulp_def d)
  then show ?thesis by (simp add: rnd_def)
qed

lemma rnd_big:
  assumes lo: "2 ^ 52 * 2 ^ n \<le> \<bar>x\<bar>" and hi: "\<bar>x\<bar> < 2 ^ 53 * 2 ^ n"
  shows "rnd x = of_int (round_half_even (x / 2 ^ n)) * 2 ^ n"
proof -
  have d: "2 ^ (1074 + n) * denorm = (2::real) ^ n"
    using pow_denorm by (simp add: power_add)
  have "ulp_exp x = 1074 + n"
  proof (rule ulp_exp_eq)
    show "2 ^ 52 * (2 ^ (1074 + n) * denorm) \<le> \<bar>x\<bar>" using lo by (simp only: d)
    show "\<bar>x\<bar> < 2 ^ 53 * (2 ^ (1074 + n) * denorm)" using hi by (simp only: d)
  qed
  then have "ulp x = 2 ^ n" by (simp add: ulp_def d)
  then show ?thesis by (simp add: rnd_def)
qed

text \<open>
  The doubles that the literals 10.6, 11.2, 8.4, 9.2 and 10.4 of the engine-vergleich
  page stand for.
\<close>

lemma rnd_literals:
  "rnd (53 / 5) = 5967269506265907 / 2 ^ 49"
  "rnd (56 / 5) = 3152519739159347 / 2 ^ 48"
  "rnd (42 / 5) = 4728779608739021 / 2 ^ 49"
  "rnd (46 / 5) = 2589569785738035 / 2 ^ 48"
  "rnd (52 / 5) = 5854679515581645 / 2 ^ 49"
  by (subst rnd_frac [where n = 49], simp, simp, simp, simp add: round_half_even_def)+

lemma step_bounds: "1 \<le> rnd 10.6" "1 \<le> rnd 11.2" "0 \<le> rnd 10.6" "0 \<le> rnd 11.2"
  by (simp_all add: rnd_literals)

section \<open>The layout: cursor and instructions\<close>

lemma wrap_returns: "0 < width \<Longrightarrow> wrap db text width = Inr (wrap_lines (nat width) (split_chunks db text) [])"
  by (simp add: wrap_def wrap_chunks_def)

lemma wrap_raises: "width \<le> 0 \<Longrightarrow> wrap db text width = Inl (ValueError width)"
  by (simp add: wrap_def wrap_chunks_def)

text \<open>Whole numbers are subtracted and added without rounding up to \<open>2^53\<close>.\<close>

lemma rnd_whole: "x \<in> \<int> \<Longrightarrow> \<bar>x\<bar> \<le> 2 ^ 53 \<Longrightarrow> rnd x = x"
proof -
  assume "x \<in> \<int>" and b: "\<bar>x\<bar> \<le> 2 ^ 53"
  then obtain z where z: "x = of_int z" by (auto elim: Ints_cases)
  have "(of_int \<bar>z\<bar> :: real) \<le> of_int (2 ^ 53)" using b by (simp add: z)
  then have "\<bar>z\<bar> \<le> 2 ^ 53" by (rule of_int_le_iff [THEN iffD1])
  then show ?thesis unfolding z by (rule rnd_int)
qed

lemma fsub_whole: "x \<in> \<int> \<Longrightarrow> c \<in> \<int> \<Longrightarrow> \<bar>x - c\<bar> \<le> 2 ^ 53 \<Longrightarrow> fsub x c = x - c"
  unfolding fsub_def by (rule rnd_whole) simp_all

lemma fadd_whole: "x \<in> \<int> \<Longrightarrow> c \<in> \<int> \<Longrightarrow> \<bar>x + c\<bar> \<le> 2 ^ 53 \<Longrightarrow> fadd x c = x + c"
  unfolding fadd_def by (rule rnd_whole) simp_all

lemma is_double_whole: "x \<in> \<int> \<Longrightarrow> \<bar>x\<bar> \<le> 2 ^ 53 \<Longrightarrow> is_double x"
  unfolding is_double_def by (rule rnd_whole)

text \<open>A step down from a double of magnitude below \<open>2^53\<close> is not lost.\<close>

lemma fsub_lower:
  assumes a: "is_double a" and b: "\<bar>a\<bar> < 2 ^ 53" and c: "1 \<le> c"
  shows "fsub a c < a"
proof -
  define z where "z = \<lceil>a\<rceil> - 1"
  have z1: "of_int z < a" unfolding z_def by linarith
  have z2: "a - c \<le> of_int z" unfolding z_def using c by linarith
  have ab: "- (2 ^ 53) < a" "a < 2 ^ 53" using b by (simp_all add: abs_less_iff)
  have "- (2 ^ 53) < (of_int \<lceil>a\<rceil> :: real)" using ab(1) le_of_int_ceiling [of a] by linarith
  then have c1: "(of_int (- (2 ^ 53)) :: real) < of_int \<lceil>a\<rceil>" by simp
  have "(of_int z :: real) < 2 ^ 53" using ab(2) z1 by linarith
  then have c2: "(of_int z :: real) < of_int (2 ^ 53)" by simp
  from c1 c2 have "- (2 ^ 53) < \<lceil>a\<rceil>" "z < 2 ^ 53" by (simp_all only: of_int_less_iff)
  then have "\<bar>z\<bar> \<le> 2 ^ 53" using z_def by linarith
  then have "rnd (of_int z) = of_int z" by (rule rnd_int)
  with z2 have "rnd (a - c) \<le> of_int z" by (rule rnd_le)
  then show ?thesis using z1 by (simp add: fsub_def)
qed

lemma fsub_step:
  assumes "is_double a" and "0 \<le> c"
  shows "is_double (fsub a c) \<and> fsub a c \<le> a"
  using assms by (simp add: fsub_double fsub_le)

text \<open>The loops of the app-summary layout.\<close>

lemma add_paragraph_lines_consts:
  "Layout.left (add_paragraph_lines db s lines) = Layout.left s"
  "body_size (add_paragraph_lines db s lines) = body_size s"
  "body_leading (add_paragraph_lines db s lines) = body_leading s"
  by (induction lines arbitrary: s) simp_all

lemma add_paragraph_lines_count:
  "length (Layout.commands (add_paragraph_lines db s lines)) = length (Layout.commands s) + length lines"
  by (induction lines arbitrary: s) simp_all

lemma add_paragraph_lines_le:
  assumes "is_double (Layout.y s)" and "0 \<le> body_leading s"
  shows "is_double (Layout.y (add_paragraph_lines db s lines))
       \<and> Layout.y (add_paragraph_lines db s lines) \<le> Layout.y s"
  using assms
proof (induction lines arbitrary: s)
  case Nil
  then show ?case by simp
next
  case (Cons line lines)
  define s1 where "s1 = s\<lparr>Layout.commands := Layout.commands s
                            @ [text_cmd db (Layout.left s) (Layout.y s) line (lit ''F1'') (body_size s)],
                         Layout.y := fsub (Layout.y s) (body_leading s)\<rparr>"
  have f: "is_double (Layout.y s1)" "Layout.y s1 \<le> Layout.y s" "0 \<le> body_leading s1"
    using fsub_step [OF Cons.prems] Cons.prems(2) by (simp_all add: s1_def)
  have e: "add_paragraph_lines db s (line # lines) = add_paragraph_lines db s1 lines" by (simp add: s1_def)
  from Cons.IH [OF f(1) f(3)] f(2) show ?case unfolding e by simp
qed

lemma add_paragraph_lines_y:
  assumes "Layout.y s \<in> \<int>" and "body_leading s \<in> \<int>" and "0 \<le> body_leading s"
    and "\<bar>Layout.y s\<bar> + real (length lines) * body_leading s \<le> 2 ^ 53"
  shows "Layout.y (add_paragraph_lines db s lines) = Layout.y s - real (length lines) * body_leading s"
  using assms
proof (induction lines arbitrary: s)
  case Nil
  show ?case by simp
next
  case (Cons line lines)
  define s1 where "s1 = s\<lparr>Layout.commands := Layout.commands s
                            @ [text_cmd db (Layout.left s) (Layout.y s) line (lit ''F1'') (body_size s)],
                         Layout.y := fsub (Layout.y s) (body_leading s)\<rparr>"
  have n: "0 \<le> real (length lines) * body_leading s" using Cons.prems(3) by simp
  have b: "\<bar>Layout.y s\<bar> + body_leading s + real (length lines) * body_leading s \<le> 2 ^ 53"
    using Cons.prems(4) by (simp add: algebra_simps)
  have "\<bar>Layout.y s - body_leading s\<bar> \<le> 2 ^ 53" using b n Cons.prems(3) by linarith
  then have y1: "Layout.y s1 = Layout.y s - body_leading s"
    using Cons.prems(1,2) by (simp add: s1_def fsub_whole)
  have 1: "Layout.y s1 \<in> \<int>" unfolding y1 using Cons.prems(1,2) by simp
  have 2: "body_leading s1 \<in> \<int>" "0 \<le> body_leading s1" using Cons.prems(2,3) by (simp_all add: s1_def)
  have 3: "\<bar>Layout.y s1\<bar> + real (length lines) * body_leading s1 \<le> 2 ^ 53"
    unfolding y1 using b Cons.prems(3) by (simp add: s1_def)
  have "Layout.y (add_paragraph_lines db s (line # lines)) = Layout.y (add_paragraph_lines db s1 lines)"
    by (simp add: s1_def)
  also have "\<dots> = Layout.y s1 - real (length lines) * body_leading s1" using 1 2 3 by (rule Cons.IH)
  also have "\<dots> = Layout.y s - real (length (line # lines)) * body_leading s"
    unfolding y1 by (simp add: s1_def algebra_simps)
  finally show ?case .
qed

lemma add_paragraph_lines_commands:
  assumes "Layout.y s \<in> \<int>" and "body_leading s \<in> \<int>" and "0 \<le> body_leading s"
    and "\<bar>Layout.y s\<bar> + real (length lines) * body_leading s \<le> 2 ^ 53"
  shows "Layout.commands (add_paragraph_lines db s lines)
     = Layout.commands s
       @ map (\<lambda>i. text_cmd db (Layout.left s) (Layout.y s - real i * body_leading s) (lines ! i) (lit ''F1'') (body_size s))
           [0..<length lines]"
  using assms
proof (induction lines arbitrary: s)
  case Nil
  show ?case by simp
next
  case (Cons line lines)
  define s1 where "s1 = s\<lparr>Layout.commands := Layout.commands s
                            @ [text_cmd db (Layout.left s) (Layout.y s) line (lit ''F1'') (body_size s)],
                         Layout.y := fsub (Layout.y s) (body_leading s)\<rparr>"
  have n: "0 \<le> real (length lines) * body_leading s" using Cons.prems(3) by simp
  have b: "\<bar>Layout.y s\<bar> + body_leading s + real (length lines) * body_leading s \<le> 2 ^ 53"
    using Cons.prems(4) by (simp add: algebra_simps)
  have "\<bar>Layout.y s - body_leading s\<bar> \<le> 2 ^ 53" using b n Cons.prems(3) by linarith
  then have y1: "Layout.y s1 = Layout.y s - body_leading s"
    using Cons.prems(1,2) by (simp add: s1_def fsub_whole)
  have 1: "Layout.y s1 \<in> \<int>" unfolding y1 using Cons.prems(1,2) by simp
  have 2: "body_leading s1 \<in> \<int>" "0 \<le> body_leading s1" using Cons.prems(2,3) by (simp_all add: s1_def)
  have 3: "\<bar>Layout.y s1\<bar> + real (length lines) * body_leading s1 \<le> 2 ^ 53"
    unfolding y1 using b Cons.prems(3) by (simp add: s1_def)
  have u: "[0..<length (line # lines)] = 0 # map Suc [0..<length lines]"
    by (simp add: upt_conv_Cons map_Suc_upt del: upt_Suc)
  have "Layout.commands (add_paragraph_lines db s (line # lines)) = Layout.commands (add_paragraph_lines db s1 lines)"
    by (simp add: s1_def)
  also have "\<dots> = Layout.commands s1
       @ map (\<lambda>i. text_cmd db (Layout.left s1) (Layout.y s1 - real i * body_leading s1) (lines ! i) (lit ''F1'') (body_size s1))
           [0..<length lines]"
    using 1 2 3 by (rule Cons.IH)
  also have "\<dots> = Layout.commands s
       @ map (\<lambda>i. text_cmd db (Layout.left s) (Layout.y s - real i * body_leading s) ((line # lines) ! i) (lit ''F1'') (body_size s))
           [0..<length (line # lines)]"
    unfolding u y1 by (simp add: s1_def o_def algebra_simps)
  finally show ?case .
qed

lemma add_bullets_extra_consts:
  "Layout.left (add_bullets_extra db s lines) = Layout.left s"
  "body_size (add_bullets_extra db s lines) = body_size s"
  "body_leading (add_bullets_extra db s lines) = body_leading s"
  by (induction lines arbitrary: s) simp_all

lemma add_bullets_extra_le:
  assumes "is_double (Layout.y s)" and "0 \<le> body_leading s"
  shows "is_double (Layout.y (add_bullets_extra db s lines))
       \<and> Layout.y (add_bullets_extra db s lines) \<le> Layout.y s"
  using assms
proof (induction lines arbitrary: s)
  case Nil
  then show ?case by simp
next
  case (Cons line lines)
  define s1 where "s1 = s\<lparr>Layout.commands := Layout.commands s
                            @ [text_cmd db (fadd (Layout.left s) 12) (Layout.y s) line (lit ''F1'') (body_size s)],
                         Layout.y := fsub (Layout.y s) (body_leading s)\<rparr>"
  have f: "is_double (Layout.y s1)" "Layout.y s1 \<le> Layout.y s" "0 \<le> body_leading s1"
    using fsub_step [OF Cons.prems] Cons.prems(2) by (simp_all add: s1_def)
  have e: "add_bullets_extra db s (line # lines) = add_bullets_extra db s1 lines" by (simp add: s1_def)
  from Cons.IH [OF f(1) f(3)] f(2) show ?case unfolding e by simp
qed

lemma add_bullets_items_fields:
  assumes "add_bullets_items db s items width = Inr s'"
  shows "Layout.left s' = Layout.left s \<and> body_size s' = body_size s \<and> body_leading s' = body_leading s"
  using assms
proof (induction items arbitrary: s)
  case Nil
  then show ?case by simp
next
  case (Cons item items)
  from Cons.prems obtain wrapped where w: "wrap db item width = Inr wrapped"
    by (cases "wrap db item width") auto
  show ?case
  proof (cases wrapped)
    case Nil
    with Cons.prems w have "add_bullets_items db s items width = Inr s'" by simp
    from Cons.IH [OF this] show ?thesis .
  next
    case (Cons first extras)
    define s1 where "s1 = add_bullets_extra db
                    (s\<lparr>Layout.commands := Layout.commands s
                             @ [text_cmd db (Layout.left s) (Layout.y s) (lit ''- '' @ first) (lit ''F1'') (body_size s)],
                          Layout.y := fsub (Layout.y s) (body_leading s)\<rparr>)
                    extras"
    from Cons.prems w Cons have r: "add_bullets_items db s1 items width = Inr s'"
      by (simp add: s1_def)
    have f: "Layout.left s1 = Layout.left s" "body_size s1 = body_size s" "body_leading s1 = body_leading s"
      unfolding s1_def add_bullets_extra_consts by simp_all
    with Cons.IH [OF r] show ?thesis by simp
  qed
qed

lemma add_bullets_items_le:
  assumes "add_bullets_items db s items width = Inr s'" and "is_double (Layout.y s)" and "0 \<le> body_leading s"
  shows "is_double (Layout.y s') \<and> Layout.y s' \<le> Layout.y s"
  using assms
proof (induction items arbitrary: s)
  case Nil
  then show ?case by simp
next
  case (Cons item items)
  from Cons.prems obtain wrapped where w: "wrap db item width = Inr wrapped"
    by (cases "wrap db item width") auto
  show ?case
  proof (cases wrapped)
    case Nil
    with Cons.prems w have "add_bullets_items db s items width = Inr s'" by simp
    from Cons.IH [OF this Cons.prems(2,3)] show ?thesis .
  next
    case (Cons first extras)
    define s0 where "s0 = s\<lparr>Layout.commands := Layout.commands s
                             @ [text_cmd db (Layout.left s) (Layout.y s) (lit ''- '' @ first) (lit ''F1'') (body_size s)],
                          Layout.y := fsub (Layout.y s) (body_leading s)\<rparr>"
    define s1 where "s1 = add_bullets_extra db s0 extras"
    from Cons.prems w Cons have r: "add_bullets_items db s1 items width = Inr s'"
      by (simp add: s1_def s0_def)
    have f0: "is_double (Layout.y s0)" "Layout.y s0 \<le> Layout.y s" "0 \<le> body_leading s0"
      using fsub_step [OF Cons.prems(2,3)] Cons.prems(3) by (simp_all add: s0_def)
    have f1: "is_double (Layout.y s1)" "Layout.y s1 \<le> Layout.y s0" "0 \<le> body_leading s1"
      using add_bullets_extra_le [OF f0(1) f0(3), of db extras] f0(3)
      by (simp_all add: s1_def add_bullets_extra_consts)
    from Cons.IH [OF r f1(1) f1(3)] f1(2) f0(2) show ?thesis by simp
  qed
qed

lemma add_bullets_items_returns:
  "0 < width \<Longrightarrow> \<exists>s'. add_bullets_items db s items width = Inr s'"
  by (induction items arbitrary: s) (simp_all add: wrap_returns split: list.splits)

lemma reachable_fields:
  "reachable db s \<Longrightarrow>
     Layout.left s = 54 \<and> body_size s = 10 \<and> body_leading s = 12 \<and> is_double (Layout.y s)"
proof (induction rule: reachable.induct)
  case reach_init
  show ?case by (simp add: Layout_init_def is_double_whole)
next
  case (reach_paragraph s para width s')
  then show ?case
    by (auto simp: add_paragraph_def add_paragraph_lines_consts fsub_double split: sum.splits)
next
  case (reach_bullets s items width s')
  then show ?case
    by (auto simp: add_bullets_def fsub_double split: sum.splits dest: add_bullets_items_fields)
qed (simp_all add: add_title_def add_subtitle_def add_heading_def fsub_double)

text \<open>The loops of the engine-vergleich page.\<close>

lemma Page_p_lines_le:
  "is_double (Page.y p) \<Longrightarrow>
     is_double (Page.y (Page_p_lines p lines)) \<and> Page.y (Page_p_lines p lines) \<le> Page.y p"
proof (induction lines arbitrary: p)
  case Nil
  then show ?case by simp
next
  case (Cons line lines)
  define p1 where "p1 = p\<lparr>Page.commands := Page.commands p
                            @ [txt_cmd (Page.left p) (Page.y p) line (lit ''F1'') (rnd 9.2)],
                         Page.y := fsub (Page.y p) (rnd 10.6)\<rparr>"
  have f: "is_double (Page.y p1)" "Page.y p1 \<le> Page.y p"
    using fsub_step [OF Cons.prems step_bounds(3)] by (simp_all add: p1_def)
  have e: "Page_p_lines p (line # lines) = Page_p_lines p1 lines" by (simp add: p1_def)
  from Cons.IH [OF f(1)] f(2) show ?case unfolding e by simp
qed

lemma Page_p_lines_commands:
  "length (Page.commands (Page_p_lines p lines)) = length (Page.commands p) + length lines"
  by (induction lines arbitrary: p) simp_all

lemma Page_b_extra_le:
  "is_double (Page.y p) \<Longrightarrow>
     is_double (Page.y (Page_b_extra p lines)) \<and> Page.y (Page_b_extra p lines) \<le> Page.y p"
proof (induction lines arbitrary: p)
  case Nil
  then show ?case by simp
next
  case (Cons line lines)
  define p1 where "p1 = p\<lparr>Page.commands := Page.commands p
                            @ [txt_cmd (fadd (Page.left p) 10) (Page.y p) line (lit ''F1'') (rnd 9.2)],
                         Page.y := fsub (Page.y p) (rnd 10.6)\<rparr>"
  have f: "is_double (Page.y p1)" "Page.y p1 \<le> Page.y p"
    using fsub_step [OF Cons.prems step_bounds(3)] by (simp_all add: p1_def)
  have e: "Page_b_extra p (line # lines) = Page_b_extra p1 lines" by (simp add: p1_def)
  from Cons.IH [OF f(1)] f(2) show ?case unfolding e by simp
qed

lemma Page_b_items_le:
  assumes "Page_b_items db p items width = Inr p'" and "is_double (Page.y p)"
  shows "is_double (Page.y p') \<and> Page.y p' \<le> Page.y p"
  using assms
proof (induction items arbitrary: p)
  case Nil
  then show ?case by simp
next
  case (Cons item items)
  from Cons.prems obtain wrapped where w: "wrap db item width = Inr wrapped"
    by (cases "wrap db item width") auto
  show ?case
  proof (cases wrapped)
    case Nil
    with Cons.prems w have "Page_b_items db p items width = Inr p'" by simp
    from Cons.IH [OF this Cons.prems(2)] show ?thesis .
  next
    case (Cons first extras)
    define p0 where "p0 = p\<lparr>Page.commands := Page.commands p
                             @ [txt_cmd (Page.left p) (Page.y p) (lit ''- '' @ first) (lit ''F1'') (rnd 9.2)],
                          Page.y := fsub (Page.y p) (rnd 10.6)\<rparr>"
    define p1 where "p1 = Page_b_extra p0 extras"
    from Cons.prems w Cons have r: "Page_b_items db p1 items width = Inr p'"
      by (simp add: p1_def p0_def)
    have f0: "is_double (Page.y p0)" "Page.y p0 \<le> Page.y p"
      using fsub_step [OF Cons.prems(2) step_bounds(3)] by (simp_all add: p0_def)
    have f1: "is_double (Page.y p1)" "Page.y p1 \<le> Page.y p0"
      using Page_b_extra_le [OF f0(1), of extras] by (simp_all add: p1_def)
    from Cons.IH [OF r f1(1)] f1(2) f0(2) show ?thesis by simp
  qed
qed

lemma Page_b_items_returns:
  "0 < width \<Longrightarrow> \<exists>p'. Page_b_items db p items width = Inr p'"
  by (induction items arbitrary: p) (simp_all add: wrap_returns split: list.splits)

section \<open>Running the text wrapper\<close>

lemma split_from_Nil: "split_from db bef [] = []"
  by (simp add: split_from.simps)

lemma split_from_Cons:
  "split_from db bef (c # cs) =
     take (chunk_len db bef (c # cs)) (c # cs)
       # split_from db (rev (take (chunk_len db bef (c # cs)) (c # cs)) @ bef)
           (drop (chunk_len db bef (c # cs)) (c # cs))"
  by (subst split_from.simps) simp

lemma wrap_lines_Nil: "wrap_lines width [] lines = lines"
  by (simp add: wrap_lines.simps)

lemma wrap_lines_Cons:
  "wrap_lines width (c # cs) lines =
     wrap_lines width (fst (wrap_line width (c # cs) lines)) (snd (wrap_line width (c # cs) lines))"
  by (subst wrap_lines.simps) simp

lemmas wrap_eval =
  wrap_def wrap_chunks_def split_chunks_def munge_whitespace_def split_from_Nil split_from_Cons
  chunk_len_def hyphen_run_def hyphen_break_def is_ws_def is_space_def blank_def
  is_word_def is_decimal_def is_letter_def is_word_punct_def ascii_db_def
  wrap_lines_Nil wrap_lines_Cons wrap_line_def handle_long_word_def rfind_hyphen_def
  lit_def Let_def

lemma wrap_example: "wrap ascii_db (lit ''abcdefghij'') 4 = Inr [lit ''abcd'', lit ''efgh'', lit ''ij'']"
  by (simp add: wrap_eval)

lemma text_cmd_example: "text_cmd ascii_db 54 752 (lit ''Report'') (lit ''F2'') 18 = lit ''BT /F2 18.0 Tf 1 0 0 1 54.00 752.00 Tm (Report) Tj ET''"
  by (simp add: text_cmd_def float_repr_def fmt_fixed_def round_half_even_def escape_pdf_text_def str_nat.simps lit_def Let_def)

section \<open>Placement calls\<close>

lemma expandtabs_ws: "list_all is_ws s \<Longrightarrow> list_all is_ws (expandtabs 8 j s)"
  by (induction s arbitrary: j) (auto simp: is_ws_def list_all_iff)

lemma munge_ws: "list_all is_ws s \<Longrightarrow> list_all (\<lambda>c. c = 32) (munge_whitespace s)"
  using expandtabs_ws [of s 0] by (auto simp: munge_whitespace_def list_all_iff)

lemma split_from_blanks:
  assumes "list_all (\<lambda>c. c = 32) s"
  shows "split_from db bef s = (if s = [] then [] else [s])"
proof (cases s)
  case Nil
  then show ?thesis by (simp add: split_from_Nil)
next
  case (Cons c cs)
  from assms have ws: "list_all is_ws s" by (auto simp: list_all_iff is_ws_def)
  then have "takeWhile is_ws (c # cs) = c # cs" unfolding Cons by (simp add: list_all_iff)
  moreover from ws Cons have "is_ws c" by simp
  ultimately have "chunk_len db bef (c # cs) = length (c # cs)"
    unfolding chunk_len_def by (simp only: list.case if_True)
  then show ?thesis unfolding Cons by (simp add: split_from_Cons split_from_Nil)
qed

lemma rfind_hyphen_none: "45 \<notin> set chunk \<Longrightarrow> rfind_hyphen chunk n = - 1"
  by (auto simp: rfind_hyphen_def Let_def dest: in_set_takeD)

lemma blank_no_hyphen: "blank chunk \<Longrightarrow> 45 \<notin> set chunk"
  by (auto simp: blank_def list_all_iff is_space_def)

lemma wrap_lines_blank:
  "0 < width \<Longrightarrow> blank chunk \<Longrightarrow> wrap_lines width [chunk] [] = []"
proof (induction "length chunk" arbitrary: chunk rule: less_induct)
  case less
  show ?case
  proof (cases "length chunk \<le> width")
    case True
    then have "wrap_line width [chunk] [] = ([], [])"
      using less.prems by (simp add: wrap_line_def)
    then show ?thesis by (simp add: wrap_lines_Cons wrap_lines_Nil)
  next
    case False
    have bt: "blank (take width chunk)" and bd: "blank (drop width chunk)"
      using less.prems(2) by (auto simp: blank_def list_all_iff dest: in_set_takeD in_set_dropD)
    have "wrap_line width [chunk] [] = ([drop width chunk], [])"
      using False less.prems bt
      by (simp add: wrap_line_def handle_long_word_def rfind_hyphen_none blank_no_hyphen Let_def)
    moreover have "wrap_lines width [drop width chunk] [] = []"
      using False less.prems(1) bd by (intro less.hyps) simp_all
    ultimately show ?thesis by (simp add: wrap_lines_Cons)
  qed
qed

lemma wrap_whitespace:
  assumes "list_all is_ws text" and "0 < width"
  shows "wrap db text width = Inr []"
proof -
  have b: "list_all (\<lambda>c. c = 32) (munge_whitespace text)" using assms(1) by (rule munge_ws)
  then have bl: "blank (munge_whitespace text)" by (auto simp: blank_def list_all_iff is_space_def)
  have "wrap_lines (nat width) (split_chunks db text) [] = []"
    unfolding split_chunks_def split_from_blanks [OF b]
    using assms(2) bl by (simp add: wrap_lines_Nil wrap_lines_blank)
  then show ?thesis using assms(2) by (simp add: wrap_returns)
qed


text \<open>From 1 up to \<open>2^53\<close> a double loses 2.0 without rounding.\<close>

lemma fsub_two:
  assumes d: "is_double a" and lo: "1 \<le> a" and hi: "a \<le> 2 ^ 53"
  shows "fsub a 2 = a - 2"
proof -
  obtain k where k: "a = of_int k * (2 ^ ulp_exp a * denorm)" "\<bar>k\<bar> \<le> 2 ^ 53"
    using rnd_repr [of a] d by (auto simp: is_double_def)
  define j where "j = ulp_exp a"
  define Q where "Q = (2::real) ^ j * denorm"
  have q: "0 < Q" using denorm_pos by (simp add: Q_def)
  have ak: "a = of_int k * Q" using k(1) by (simp add: Q_def j_def)
  have j: "j \<le> 1075"
  proof (rule ccontr)
    assume "\<not> j \<le> 1075"
    then obtain m where jm: "j = 1074 + m" and m2: "2 \<le> m" by (auto intro: that [of "j - 1074"])
    have "Q = 2 ^ m" unfolding Q_def jm by (rule pow_denorm_add)
    moreover have "(2::real) ^ 2 \<le> 2 ^ m" using m2 by (intro power_increasing) simp_all
    ultimately have u: "4 \<le> Q" by simp
    have "0 < ulp_exp a" using jm m2 by (simp add: j_def)
    from ulp_lower [OF this] have "2 ^ 52 * Q \<le> a" using lo by (simp add: ulp_def Q_def j_def)
    moreover have "(2::real) ^ 52 * 4 \<le> 2 ^ 52 * Q" using u by (intro mult_left_mono) simp_all
    ultimately have "(2::real) ^ 52 * 4 \<le> 2 ^ 53" using hi by linarith
    then show False by simp
  qed
  have two: "(2::real) = of_int (2 ^ (1075 - j)) * Q"
  proof -
    have ex: "(1075 - j) + j = 1074 + 1" using j by simp
    have "(2::real) ^ (1075 - j) * 2 ^ j = 2 ^ ((1075 - j) + j)" by (rule power_add [symmetric])
    also have "\<dots> = 2 ^ (1074 + 1)" by (simp only: ex)
    finally have p: "(2::real) ^ (1075 - j) * 2 ^ j = 2 ^ (1074 + 1)" .
    have "of_int (2 ^ (1075 - j)) * Q = ((2::real) ^ (1075 - j) * 2 ^ j) * denorm" by (simp add: Q_def)
    also have "\<dots> = 2 ^ (1074 + 1) * denorm" by (simp only: p)
    also have "\<dots> = 2 ^ 1" by (rule pow_denorm_add)
    finally show ?thesis by simp
  qed
  have e: "a - 2 = of_int (k - 2 ^ (1075 - j)) * Q"
  proof -
    have "a - 2 = of_int k * Q - of_int (2 ^ (1075 - j)) * Q" using ak two by simp
    also have "\<dots> = of_int (k - 2 ^ (1075 - j)) * Q" by (simp add: algebra_simps)
    finally show ?thesis .
  qed
  have "\<bar>a - 2\<bar> \<le> a" using lo by linarith
  then have "\<bar>of_int (k - 2 ^ (1075 - j)) * Q\<bar> \<le> of_int k * Q" by (simp only: e [symmetric] ak [symmetric])
  then have "\<bar>of_int (k - 2 ^ (1075 - j)) :: real\<bar> * Q \<le> of_int k * Q"
    using q by (simp only: abs_mult abs_of_pos)
  then have "\<bar>of_int (k - 2 ^ (1075 - j)) :: real\<bar> \<le> of_int k"
    using q by (simp only: mult_le_cancel_right_pos)
  then have "(of_int \<bar>k - 2 ^ (1075 - j)\<bar> :: real) \<le> of_int k" by simp
  then have "\<bar>k - 2 ^ (1075 - j)\<bar> \<le> k" by (rule of_int_le_iff [THEN iffD1])
  then have b: "\<bar>k - 2 ^ (1075 - j)\<bar> \<le> 2 ^ 53" using k(2) by linarith
  have "a - 2 = of_int (k - 2 ^ (1075 - j)) * (2 ^ j * denorm)" using e by (simp only: Q_def)
  from this b have "rnd (a - 2) = a - 2" by (rule rnd_exact)
  then show ?thesis by (simp add: fsub_def)
qed

text \<open>
  Claim C10, amended. For every input text whose word-wrap result is empty,
  \<open>add_paragraph\<close> returns the state it was given with no draw instruction added and the
  trailing gap subtracted from the cursor in double arithmetic: the new cursor is the
  double nearest to the cursor minus 4.0 in the app-summary layout, minus 2.0 in the
  engine-vergleich page. The decrease is exactly 4.0 when the cursor holds a whole number
  and the difference is at most \<open>2^53\<close> in magnitude, and exactly 2.0 when the cursor of the
  page is a double from 1 to \<open>2^53\<close>.
\<close>

theorem empty_wrap_adds_only_the_gap:
  assumes "wrap db text width = Inr []"
  shows "add_paragraph db s text width = Inr (s\<lparr>Layout.y := fsub (Layout.y s) 4\<rparr>)
       \<and> Page_p db p text width = Inr (p\<lparr>Page.y := fsub (Page.y p) 2\<rparr>)
       \<and> (Layout.y s \<in> \<int> \<and> \<bar>Layout.y s - 4\<bar> \<le> 2 ^ 53 \<longrightarrow>
            add_paragraph db s text width = Inr (s\<lparr>Layout.y := Layout.y s - 4\<rparr>))
       \<and> (is_double (Page.y p) \<and> 1 \<le> Page.y p \<and> Page.y p \<le> 2 ^ 53 \<longrightarrow>
            Page_p db p text width = Inr (p\<lparr>Page.y := Page.y p - 2\<rparr>))"
proof (intro conjI impI)
  show a: "add_paragraph db s text width = Inr (s\<lparr>Layout.y := fsub (Layout.y s) 4\<rparr>)"
    using assms by (simp add: add_paragraph_def)
  show b: "Page_p db p text width = Inr (p\<lparr>Page.y := fsub (Page.y p) 2\<rparr>)"
    using assms by (simp add: Page_p_def)
  show "add_paragraph db s text width = Inr (s\<lparr>Layout.y := Layout.y s - 4\<rparr>)"
    if "Layout.y s \<in> \<int> \<and> \<bar>Layout.y s - 4\<bar> \<le> 2 ^ 53"
    using that a by (simp add: fsub_whole)
  show "Page_p db p text width = Inr (p\<lparr>Page.y := Page.y p - 2\<rparr>)"
    if "is_double (Page.y p) \<and> 1 \<le> Page.y p \<and> Page.y p \<le> 2 ^ 53"
    using that b by (simp add: fsub_two)
qed

text \<open>The empty string and a text of a blank, a tab and a newline wrap to nothing.\<close>

theorem empty_wrap_adds_only_the_gap_witness:
  "wrap ascii_db [] 98 = Inr [] \<and> wrap ascii_db (lit '' '' @ [9, 10]) 98 = Inr []
   \<and> Layout.y Layout_init \<in> \<int> \<and> \<bar>Layout.y Layout_init - 4\<bar> \<le> 2 ^ 53
   \<and> is_double (Page.y Page_init) \<and> 1 \<le> Page.y Page_init \<and> Page.y Page_init \<le> 2 ^ 53
   \<and> add_paragraph ascii_db Layout_init [] 98 = Inr (Layout_init\<lparr>Layout.y := 748\<rparr>)
   \<and> add_paragraph ascii_db Layout_init (lit '' '' @ [9, 10]) 98 = Inr (Layout_init\<lparr>Layout.y := 748\<rparr>)
   \<and> Page_p ascii_db Page_init [] 118 = Inr (Page_init\<lparr>Page.y := 768\<rparr>)
   \<and> Page_p ascii_db Page_init (lit '' '' @ [9, 10]) 118 = Inr (Page_init\<lparr>Page.y := 768\<rparr>)"
proof -
  have w1: "wrap ascii_db [] 98 = Inr []" and w2: "wrap ascii_db (lit '' '' @ [9, 10]) 98 = Inr []"
    and w3: "wrap ascii_db [] 118 = Inr []" and w4: "wrap ascii_db (lit '' '' @ [9, 10]) 118 = Inr []"
    by (rule wrap_whitespace; simp add: is_ws_def lit_def)+
  have d: "is_double (Page.y Page_init)" by (simp add: Page_init_def is_double_whole)
  show ?thesis
    using w1 w2 d empty_wrap_adds_only_the_gap [OF w1, of Layout_init Page_init]
      empty_wrap_adds_only_the_gap [OF w2, of Layout_init Page_init]
      empty_wrap_adds_only_the_gap [OF w3, of Layout_init Page_init]
      empty_wrap_adds_only_the_gap [OF w4, of Layout_init Page_init]
    by (simp add: Layout_init_def Page_init_def fsub_whole)
qed

text \<open>Each placement call lowers the cursor of a state that \<open>reachable\<close> holds for.\<close>

lemma gap_lower:
  assumes "is_double y'" and "y' \<le> y0" and "is_double y0" and "\<bar>y0\<bar> < 2 ^ 53" and "1 \<le> c"
  shows "fsub y' c < y0"
proof (cases "y' = y0")
  case True
  then show ?thesis using fsub_lower [OF assms(3,4,5)] by simp
next
  case False
  have "fsub y' c \<le> y'" using assms(1,5) by (intro fsub_le) simp_all
  then show ?thesis using False assms(2) by simp
qed

lemma Layout_moves_down:
  assumes "is_double (Layout.y s)" and "\<bar>Layout.y s\<bar> < 2 ^ 53" and "1 \<le> body_leading s"
  shows "0 < width \<Longrightarrow> \<exists>s'. add_paragraph db s text width = Inr s' \<and> Layout.y s' < Layout.y s"
    and "0 < width \<Longrightarrow> \<exists>s'. add_bullets db s items width = Inr s' \<and> Layout.y s' < Layout.y s"
    and "\<exists>s'. add_bullets db s [] w0 = Inr s' \<and> Layout.y s' < Layout.y s"
proof -
  have l0: "0 \<le> body_leading s" using assms(3) by simp
  show "\<exists>s'. add_paragraph db s text width = Inr s' \<and> Layout.y s' < Layout.y s" if "0 < width"
  proof -
    define lines where "lines = wrap_lines (nat width) (split_chunks db text) []"
    from add_paragraph_lines_le [OF assms(1) l0, of db lines]
    have "fsub (Layout.y (add_paragraph_lines db s lines)) 4 < Layout.y s"
      using assms(1,2) by (intro gap_lower) simp_all
    then show ?thesis using that by (simp add: add_paragraph_def wrap_returns lines_def)
  qed
  show "\<exists>s'. add_bullets db s items width = Inr s' \<and> Layout.y s' < Layout.y s" if "0 < width"
  proof -
    from add_bullets_items_returns [OF that]
    obtain s1 where s1: "add_bullets_items db s items width = Inr s1" by blast
    from add_bullets_items_le [OF s1 assms(1) l0]
    have "fsub (Layout.y s1) 4 < Layout.y s" using assms(1,2) by (intro gap_lower) simp_all
    then show ?thesis using s1 by (simp add: add_bullets_def)
  qed
  have "fsub (Layout.y s) 4 < Layout.y s" using assms(1,2) by (intro fsub_lower) simp_all
  then show "\<exists>s'. add_bullets db s [] w0 = Inr s' \<and> Layout.y s' < Layout.y s"
    by (simp add: add_bullets_def)
qed

lemma Page_moves_down:
  assumes "is_double (Page.y p)" and "\<bar>Page.y p\<bar> < 2 ^ 53"
  shows "0 < width \<Longrightarrow> \<exists>p'. Page_p db p text width = Inr p' \<and> Page.y p' < Page.y p"
    and "0 < width \<Longrightarrow> \<exists>p'. Page_b db p items width = Inr p' \<and> Page.y p' < Page.y p"
    and "\<exists>p'. Page_b db p [] w0 = Inr p' \<and> Page.y p' < Page.y p"
proof -
  show "\<exists>p'. Page_p db p text width = Inr p' \<and> Page.y p' < Page.y p" if "0 < width"
  proof -
    define lines where "lines = wrap_lines (nat width) (split_chunks db text) []"
    from Page_p_lines_le [OF assms(1), of lines]
    have "fsub (Page.y (Page_p_lines p lines)) 2 < Page.y p"
      using assms by (intro gap_lower) simp_all
    then show ?thesis using that by (simp add: Page_p_def wrap_returns lines_def)
  qed
  show "\<exists>p'. Page_b db p items width = Inr p' \<and> Page.y p' < Page.y p" if "0 < width"
  proof -
    from Page_b_items_returns [OF that]
    obtain p1 where p1: "Page_b_items db p items width = Inr p1" by blast
    from Page_b_items_le [OF p1 assms(1)]
    have "fsub (Page.y p1) 2 < Page.y p" using assms by (intro gap_lower) simp_all
    then show ?thesis using p1 by (simp add: Page_b_def)
  qed
  have "fsub (Page.y p) 2 < Page.y p" using assms by (intro fsub_lower) simp_all
  then show "\<exists>p'. Page_b db p [] w0 = Inr p' \<and> Page.y p' < Page.y p"
    by (simp add: Page_b_def)
qed

text \<open>
  Claim C8, amended. For every state of the app-summary layout that the constructor and
  the placement calls lead to, and every state of the engine-vergleich page whose cursor
  is a double, the cursor being below \<open>2^53\<close> in magnitude in both, and for every placement
  call with a wrap width of at least 1 (the title, subtitle and heading calls take no
  width): the call returns and the cursor's vertical position after it is strictly less
  than before it. With a width of 0 or less the paragraph call, and the bullet call on a
  list that is not empty, raise the \<open>ValueError\<close> of the text wrapper and place nothing;
  the bullet call on the empty list never wraps, returns and lowers the cursor.
\<close>

theorem placement_moves_cursor_down:
  assumes "reachable db s" and "\<bar>Layout.y s\<bar> < 2 ^ 53"
    and "is_double (Page.y p)" and "\<bar>Page.y p\<bar> < 2 ^ 53" and "0 < width"
  shows "Layout.y (add_title db s text) < Layout.y s
       \<and> Layout.y (add_subtitle db s text) < Layout.y s
       \<and> Layout.y (add_heading db s text) < Layout.y s
       \<and> (\<exists>s'. add_paragraph db s text width = Inr s' \<and> Layout.y s' < Layout.y s)
       \<and> (\<exists>s'. add_bullets db s items width = Inr s' \<and> Layout.y s' < Layout.y s)
       \<and> Page.y (Page_title p text) < Page.y p
       \<and> Page.y (Page_sub p text) < Page.y p
       \<and> Page.y (Page_h p text) < Page.y p
       \<and> (\<exists>p'. Page_p db p text width = Inr p' \<and> Page.y p' < Page.y p)
       \<and> (\<exists>p'. Page_b db p items width = Inr p' \<and> Page.y p' < Page.y p)
       \<and> (w0 \<le> 0 \<longrightarrow>
             add_paragraph db s text w0 = Inl (ValueError w0)
           \<and> add_bullets db s (item # items) w0 = Inl (ValueError w0)
           \<and> (\<exists>s'. add_bullets db s [] w0 = Inr s' \<and> Layout.y s' < Layout.y s)
           \<and> Page_p db p text w0 = Inl (ValueError w0)
           \<and> Page_b db p (item # items) w0 = Inl (ValueError w0)
           \<and> (\<exists>p'. Page_b db p [] w0 = Inr p' \<and> Page.y p' < Page.y p))"
proof -
  from reachable_fields [OF assms(1)]
  have d: "is_double (Layout.y s)" and l: "1 \<le> body_leading s" by simp_all
  note L = Layout_moves_down [OF d assms(2) l]
  note P = Page_moves_down [OF assms(3,4)]
  have t: "fsub (Layout.y s) c < Layout.y s" if "1 \<le> c" for c
    using d assms(2) that by (rule fsub_lower)
  have u: "fsub (Page.y p) c < Page.y p" if "1 \<le> c" for c
    using assms(3,4) that by (rule fsub_lower)
  have 1: "Layout.y (add_title db s text) < Layout.y s"
    "Layout.y (add_subtitle db s text) < Layout.y s"
    "Layout.y (add_heading db s text) < Layout.y s"
    by (simp_all add: add_title_def add_subtitle_def add_heading_def t)
  have 2: "Page.y (Page_title p text) < Page.y p" "Page.y (Page_sub p text) < Page.y p"
    by (simp_all add: Page_title_def Page_sub_def u)
  have 3: "Page.y (Page_h p text) < Page.y p"
    using u [OF step_bounds(2)] by (simp add: Page_h_def)
  have 4: "w0 \<le> 0 \<longrightarrow>
             add_paragraph db s text w0 = Inl (ValueError w0)
           \<and> add_bullets db s (item # items) w0 = Inl (ValueError w0)
           \<and> (\<exists>s'. add_bullets db s [] w0 = Inr s' \<and> Layout.y s' < Layout.y s)
           \<and> Page_p db p text w0 = Inl (ValueError w0)
           \<and> Page_b db p (item # items) w0 = Inl (ValueError w0)
           \<and> (\<exists>p'. Page_b db p [] w0 = Inr p' \<and> Page.y p' < Page.y p)"
    using L(3) [of db w0] P(3) [of db w0]
    by (simp add: add_paragraph_def add_bullets_def Page_p_def Page_b_def wrap_raises)
  from 1 2 3 4 L(1) [OF assms(5)] L(2) [OF assms(5)] P(1) [OF assms(5)] P(2) [OF assms(5)]
  show ?thesis by (intro conjI)
qed

text \<open>The state after the title \<open>Report\<close>, cursor at 732, and the initial page.\<close>

theorem placement_moves_cursor_down_witness:
  "reachable ascii_db (add_title ascii_db Layout_init (lit ''Report''))
   \<and> \<bar>Layout.y (add_title ascii_db Layout_init (lit ''Report''))\<bar> < 2 ^ 53
   \<and> is_double (Page.y Page_init) \<and> \<bar>Page.y Page_init\<bar> < 2 ^ 53 \<and> (0::int) < 98
   \<and> Layout.y (add_heading ascii_db (add_title ascii_db Layout_init (lit ''Report'')) (lit ''What it is'')) < 732
   \<and> (\<exists>s'. add_paragraph ascii_db (add_title ascii_db Layout_init (lit ''Report'')) (lit ''one two'') 98 = Inr s'
          \<and> Layout.y s' < 732)
   \<and> (\<exists>s'. add_bullets ascii_db (add_title ascii_db Layout_init (lit ''Report'')) [lit ''one'', lit ''two''] 98 = Inr s'
          \<and> Layout.y s' < 732)
   \<and> (\<exists>p'. Page_p ascii_db Page_init (lit ''one two'') 98 = Inr p' \<and> Page.y p' < 770)
   \<and> (\<exists>p'. Page_b ascii_db Page_init [lit ''one'', lit ''two''] 98 = Inr p' \<and> Page.y p' < 770)
   \<and> (0::int) \<le> 0
   \<and> add_paragraph ascii_db (add_title ascii_db Layout_init (lit ''Report'')) (lit ''one two'') 0 = Inl (ValueError 0)
   \<and> Page_b ascii_db Page_init [lit ''zero'', lit ''one'', lit ''two''] 0 = Inl (ValueError 0)
   \<and> (\<exists>s'. add_bullets ascii_db (add_title ascii_db Layout_init (lit ''Report'')) [] 0 = Inr s'
          \<and> Layout.y s' < 732)"
proof -
  have r: "reachable ascii_db (add_title ascii_db Layout_init (lit ''Report''))"
    by (intro reach_title reach_init)
  have w: "(0::int) < 98" by simp
  have y: "Layout.y (add_title ascii_db Layout_init (lit ''Report'')) = 732" "Page.y Page_init = 770"
    by (simp_all add: add_title_def Layout_init_def Page_init_def fsub_whole)
  have b: "\<bar>Layout.y (add_title ascii_db Layout_init (lit ''Report''))\<bar> < 2 ^ 53"
    "\<bar>Page.y Page_init\<bar> < 2 ^ 53"
    unfolding y by simp_all
  have d: "is_double (Page.y Page_init)" unfolding y by (simp add: is_double_whole)
  from placement_moves_cursor_down [OF r b(1) d b(2) w, of "lit ''What it is''" "[lit ''one'', lit ''two'']" 0 "lit ''zero''"]
    placement_moves_cursor_down [OF r b(1) d b(2) w, of "lit ''one two''" "[lit ''one'', lit ''two'']" 0 "lit ''zero''"]
  show ?thesis using r b d unfolding y by simp
qed

text \<open>
  Claim C8 as stated, for every state and any input. A paragraph call with the width 0
  returns no state: the text wrapper raises \<open>ValueError\<close> before anything is placed. A
  cursor at \<open>-2^55\<close> in the app-summary layout, or at \<open>10^18\<close> on the engine-vergleich page,
  is a double that a step of 4.0 or 18.0 does not move: the call returns with the cursor
  where it was. A layout whose \<open>body_leading\<close> was set to \<open>-12.0\<close>, which no state led to
  by the constructor and the placement calls has, moves the cursor up with a line.
\<close>

theorem zero_width_places_nothing:
  "add_paragraph ascii_db Layout_init (lit ''x'') 0 = Inl (ValueError 0)
   \<and> add_paragraph ascii_db (Layout_init\<lparr>Layout.y := - (2 ^ 55)\<rparr>) [] 98
       = Inr (Layout_init\<lparr>Layout.y := - (2 ^ 55)\<rparr>)
   \<and> Page_title (Page_init\<lparr>Page.y := 10 ^ 18\<rparr>) (lit ''x'')
       = Page_init\<lparr>Page.commands := [txt_cmd 42 (10 ^ 18) (lit ''x'') (lit ''F2'') 16], Page.y := 10 ^ 18\<rparr>
   \<and> Layout.y (add_paragraph_lines ascii_db (Layout_init\<lparr>body_leading := - 12\<rparr>) [lit ''x'']) = 764"
proof -
  have w: "wrap ascii_db [] 98 = Inr []" by (rule wrap_whitespace; simp)
  have 1: "fsub (- (2 ^ 55)) 4 = - (2 ^ 55)"
    unfolding fsub_def by (subst rnd_big [where n = 3]) (simp_all add: round_half_even_def)
  have 2: "fsub (10 ^ 18) 18 = 10 ^ 18"
    unfolding fsub_def by (subst rnd_big [where n = 7]) (simp_all add: round_half_even_def)
  have 3: "fsub 752 (- 12) = 764" by (simp add: fsub_whole)
  show ?thesis
    using 1 2 3
    by (simp add: add_paragraph_def wrap_raises w Page_title_def Page_init_def Layout_init_def)
qed

section \<open>Lines fit the width\<close>

lemma fill_line_len:
  "fill_line width cs cl n = (cl', n', cs') \<Longrightarrow> n = length (concat cl) \<Longrightarrow> n \<le> width
     \<Longrightarrow> n' = length (concat cl') \<and> n' \<le> width"
proof (induction cs arbitrary: cl n)
  case Nil
  then show ?case by auto
next
  case (Cons c cs)
  show ?case
  proof (cases "n + length c \<le> width")
    case True
    with Cons.prems have "fill_line width cs (cl @ [c]) (n + length c) = (cl', n', cs')" by simp
    moreover have "n + length c = length (concat (cl @ [c]))" using Cons.prems(2) by simp
    ultimately show ?thesis using True by (rule Cons.IH)
  next
    case False
    with Cons.prems show ?thesis by auto
  qed
qed

lemma rfind_hyphen_less: "rfind_hyphen chunk n < int n"
  by (auto simp: rfind_hyphen_def Let_def min_def)

lemma handle_long_word_len:
  assumes "0 < width" and "cur_len \<le> width" and "cur_len = length (concat cur_line)"
  shows "length (concat (snd (handle_long_word chunks cur_line cur_len width))) \<le> width"
proof -
  define space_left where "space_left = width - cur_len"
  define e where "e = (if length (hd chunks) > space_left \<and> rfind_hyphen (hd chunks) space_left > 0
                    \<and> list_ex (\<lambda>x. x \<noteq> 45) (take (nat (rfind_hyphen (hd chunks) space_left)) (hd chunks))
                 then nat (rfind_hyphen (hd chunks) space_left) + 1 else space_left)"
  have "e \<le> space_left"
    unfolding e_def using rfind_hyphen_less [of "hd chunks" space_left] by auto
  moreover have "snd (handle_long_word chunks cur_line cur_len width) = cur_line @ [take e (hd chunks)]"
    unfolding handle_long_word_def Let_def e_def space_left_def using assms(1) by simp
  ultimately show ?thesis using assms(2,3) unfolding space_left_def by simp
qed

lemma concat_butlast_len: "length (concat (butlast xs)) \<le> length (concat xs)"
  by (induction xs) auto

lemma wrap_line_fit:
  assumes "0 < width" and "list_all (\<lambda>l. length l \<le> width) lines"
  shows "list_all (\<lambda>l. length l \<le> width) (snd (wrap_line width chunks lines))"
proof -
  define chunks1 where "chunks1 = (if blank (hd chunks) \<and> lines \<noteq> [] then tl chunks else chunks)"
  obtain cur_line cur_len chunks2 where f: "fill_line width chunks1 [] 0 = (cur_line, cur_len, chunks2)"
    by (cases "fill_line width chunks1 [] 0") auto
  from fill_line_len [OF f] have fl: "cur_len = length (concat cur_line)" "cur_len \<le> width" by simp_all
  define cur_line3 where "cur_line3 = snd (if chunks2 \<noteq> [] \<and> length (hd chunks2) > width
             then handle_long_word chunks2 cur_line cur_len width
             else (chunks2, cur_line))"
  define cur_line4 where "cur_line4 = (if cur_line3 \<noteq> [] \<and> blank (last cur_line3) then butlast cur_line3 else cur_line3)"
  have res: "snd (wrap_line width chunks lines) = (if cur_line4 \<noteq> [] then lines @ [concat cur_line4] else lines)"
    unfolding wrap_line_def cur_line4_def cur_line3_def chunks1_def [symmetric] Let_def f
    by (simp add: split_beta)
  have "length (concat cur_line3) \<le> width"
    unfolding cur_line3_def using handle_long_word_len [OF assms(1) fl(2) fl(1)] fl by simp
  then have "length (concat cur_line4) \<le> width"
    unfolding cur_line4_def using concat_butlast_len [of cur_line3] by (simp del: length_concat)
  then show ?thesis unfolding res using assms(2) by simp
qed

lemma wrap_lines_fit:
  "0 < width \<Longrightarrow> list_all (\<lambda>l. length l \<le> width) lines
     \<Longrightarrow> list_all (\<lambda>l. length l \<le> width) (wrap_lines width chunks lines)"
proof (induction width chunks lines rule: wrap_lines.induct)
  case (1 width chunks lines)
  show ?case
  proof (cases "chunks = []")
    case True
    then show ?thesis using "1.prems" by (simp add: wrap_lines.simps)
  next
    case False
    have "list_all (\<lambda>l. length l \<le> width) (snd (wrap_line width chunks lines))"
      using "1.prems" by (rule wrap_line_fit)
    from "1.IH" [OF False "1.prems"(1) this] show ?thesis
      using False by (subst wrap_lines.simps) simp
  qed
qed

lemma wrap_fits:
  assumes "0 < width"
  shows "\<exists>lines. wrap db text width = Inr lines \<and> list_all (\<lambda>l. length l \<le> nat width) lines"
proof -
  have "list_all (\<lambda>l. length l \<le> nat width) (wrap_lines (nat width) (split_chunks db text) [])"
    using assms by (intro wrap_lines_fit) simp_all
  then show ?thesis using assms by (simp add: wrap_def wrap_chunks_def)
qed

section \<open>The number of lines\<close>

text \<open>
  Every round of the outer loop shortens the chunk list and adds one line at most, so a
  text has no more lines than twice the characters left after the tabs are expanded.
\<close>

lemma fill_line_size:
  "fill_line width cs cl n = (cl', n', cs') \<Longrightarrow>
     chunks_size cs' \<le> chunks_size cs
     \<and> (chunks_size cs' = chunks_size cs \<longrightarrow> cl' = cl \<and> n' = n \<and> cs' = cs \<and> (cs \<noteq> [] \<longrightarrow> width < n + length (hd cs)))"
proof (induction cs arbitrary: cl n)
  case Nil
  then show ?case by simp
next
  case (Cons c cs)
  show ?case
  proof (cases "n + length c \<le> width")
    case True
    with Cons.prems have "fill_line width cs (cl @ [c]) (n + length c) = (cl', n', cs')" by simp
    from Cons.IH [OF this] have "chunks_size cs' \<le> chunks_size cs" by simp
    then have "chunks_size cs' < chunks_size (c # cs)" by (simp add: chunks_size_def)
    then show ?thesis by simp
  next
    case False
    with Cons.prems have "cl' = cl" "n' = n" "cs' = c # cs" by simp_all
    with False show ?thesis by simp
  qed
qed

lemma handle_long_word_size:
  "chunks_size (fst (handle_long_word (c # cs) cur_line cur_len width)) \<le> chunks_size (c # cs)"
  "cur_len = 0 \<Longrightarrow> width < length c \<Longrightarrow>
     chunks_size (fst (handle_long_word (c # cs) cur_line cur_len width)) < chunks_size (c # cs)"
proof -
  define space_left where "space_left = (if width < 1 then 1 else width - cur_len)"
  define e where "e = (if length c > space_left \<and> rfind_hyphen c space_left > 0
                    \<and> list_ex (\<lambda>x. x \<noteq> 45) (take (nat (rfind_hyphen c space_left)) c)
                 then nat (rfind_hyphen c space_left) + 1 else space_left)"
  have f: "fst (handle_long_word (c # cs) cur_line cur_len width) = drop e c # cs"
    unfolding handle_long_word_def Let_def e_def space_left_def by simp
  show "chunks_size (fst (handle_long_word (c # cs) cur_line cur_len width)) \<le> chunks_size (c # cs)"
    unfolding f by (simp add: chunks_size_def)
  assume "cur_len = 0" and w: "width < length c"
  then have "0 < space_left" unfolding space_left_def by simp
  then have "0 < e" unfolding e_def by simp
  moreover have "0 < length c" using w by linarith
  ultimately show "chunks_size (fst (handle_long_word (c # cs) cur_line cur_len width)) < chunks_size (c # cs)"
    unfolding f by (simp add: chunks_size_def)
qed

lemma wrap_line_size:
  assumes ne: "chunks \<noteq> []"
  shows "chunks_size (fst (wrap_line width chunks lines)) < chunks_size chunks"
proof -
  define chunks1 where "chunks1 = (if blank (hd chunks) \<and> lines \<noteq> [] then tl chunks else chunks)"
  obtain cur_line cur_len chunks2 where f: "fill_line width chunks1 [] 0 = (cur_line, cur_len, chunks2)"
    by (cases "fill_line width chunks1 [] 0") auto
  define chunks3 where "chunks3 = fst (if chunks2 \<noteq> [] \<and> length (hd chunks2) > width
             then handle_long_word chunks2 cur_line cur_len width
             else (chunks2, cur_line))"
  have res: "fst (wrap_line width chunks lines) = chunks3"
    unfolding wrap_line_def chunks3_def chunks1_def [symmetric] Let_def f
    by (simp add: split_beta)
  obtain c0 cs0 where c0: "chunks = c0 # cs0" using ne by (cases chunks) auto
  have c1: "chunks_size chunks1 \<le> chunks_size chunks"
    unfolding chunks1_def c0 by (simp add: chunks_size_def)
  have c1': "chunks_size chunks1 = chunks_size chunks \<Longrightarrow> chunks1 = chunks"
    unfolding chunks1_def c0 by (simp add: chunks_size_def split: if_splits)
  note c2 = fill_line_size [OF f]
  have c3: "chunks_size chunks3 \<le> chunks_size chunks2"
  proof (cases chunks2)
    case Nil
    then show ?thesis unfolding chunks3_def by simp
  next
    case (Cons c cs)
    show ?thesis unfolding chunks3_def Cons using handle_long_word_size(1) [of c cs cur_line cur_len]
      by simp
  qed
  show ?thesis
  proof (cases "chunks_size chunks2 = chunks_size chunks")
    case False
    with c1 c2 c3 show ?thesis unfolding res by linarith
  next
    case True
    with c1 c2 have e1: "chunks_size chunks1 = chunks_size chunks" and e2: "chunks_size chunks2 = chunks_size chunks1"
      by linarith+
    from c1' [OF e1] have k1: "chunks1 = c0 # cs0" unfolding c0 .
    from c2 e2 have k2: "cur_line = []" "cur_len = 0" "chunks2 = chunks1" "width < 0 + length (hd chunks1)"
      using k1 by simp_all
    have "chunks3 = fst (handle_long_word (c0 # cs0) [] 0 width)"
      unfolding chunks3_def using k1 k2 by simp
    moreover have "width < length c0" using k2(4) k1 by simp
    ultimately have "chunks_size chunks3 < chunks_size (c0 # cs0)"
      using handle_long_word_size(2) [of 0 width c0 cs0 "[]"] by simp
    then show ?thesis using res c0 by simp
  qed
qed

lemma wrap_line_lines: "length (snd (wrap_line width chunks lines)) \<le> Suc (length lines)"
  by (simp add: wrap_line_def Let_def split_beta)

lemma wrap_lines_count:
  "length (wrap_lines width chunks lines) \<le> length lines + chunks_size chunks"
proof (induction width chunks lines rule: wrap_lines.induct)
  case (1 width chunks lines)
  show ?case
  proof (cases "chunks = []")
    case True
    then show ?thesis by (simp add: wrap_lines.simps)
  next
    case False
    have "length (wrap_lines width chunks lines)
        = length (wrap_lines width (fst (wrap_line width chunks lines)) (snd (wrap_line width chunks lines)))"
      using False by (subst wrap_lines.simps) simp
    also have "\<dots> \<le> length (snd (wrap_line width chunks lines)) + chunks_size (fst (wrap_line width chunks lines))"
      using False by (rule "1.IH")
    also have "\<dots> \<le> length lines + chunks_size chunks"
      using wrap_line_lines [of width chunks lines] wrap_line_size [OF False, of width lines] by linarith
    finally show ?thesis .
  qed
qed

lemma chunk_len_pos: "rest \<noteq> [] \<Longrightarrow> 0 < chunk_len db bef rest"
proof -
  assume "rest \<noteq> []"
  then obtain c cs where r: "rest = c # cs" by (cases rest) auto
  show ?thesis unfolding chunk_len_def r by (cases "is_ws c") auto
qed

lemma split_from_size: "chunks_size (split_from db bef rest) \<le> 2 * length rest"
proof (induction db bef rest rule: split_from.induct)
  case (1 db bef rest)
  show ?case
  proof (cases "rest = []")
    case True
    then show ?thesis by (simp add: split_from.simps chunks_size_def)
  next
    case False
    define n where "n = chunk_len db bef rest"
    have n: "0 < n" unfolding n_def using False by (rule chunk_len_pos)
    have l: "Suc 0 \<le> length rest" using False by (cases rest) simp_all
    have "chunks_size (split_from db bef rest)
        = Suc (length (take n rest)) + chunks_size (split_from db (rev (take n rest) @ bef) (drop n rest))"
      using False by (subst split_from.simps) (simp add: chunks_size_def n_def)
    also have "\<dots> \<le> Suc (length (take n rest)) + 2 * length (drop n rest)"
      using "1.IH" [OF False] by (simp add: n_def)
    also have "\<dots> \<le> 2 * length rest" using n l by (cases "length rest \<le> n") (auto simp: min_def)
    finally show ?thesis .
  qed
qed

lemma expandtabs_length: "length (expandtabs 8 j t) \<le> 8 * length t"
proof (induction t arbitrary: j)
  case Nil
  show ?case by simp
next
  case (Cons c cs)
  show ?case
  proof (cases "c = 9")
    case True
    have "length (expandtabs 8 j (c # cs)) = (8 - j mod 8) + length (expandtabs 8 (j + (8 - j mod 8)) cs)"
      using True by simp
    also have "\<dots> \<le> 8 + 8 * length cs" using Cons [of "j + (8 - j mod 8)"] by linarith
    finally show ?thesis by simp
  next
    case False
    then show ?thesis using Cons [of 0] Cons [of "j + 1"] by simp
  qed
qed

lemma wrap_count:
  assumes "wrap db text width = Inr lines"
  shows "length lines \<le> 16 * length text"
proof -
  from assms have l: "lines = wrap_lines (nat width) (split_chunks db text) []"
    by (simp add: wrap_def wrap_chunks_def split: if_splits)
  have "length lines \<le> chunks_size (split_chunks db text)"
    unfolding l using wrap_lines_count [of "nat width" "split_chunks db text" "[]"] by simp
  also have "\<dots> \<le> 2 * length (munge_whitespace text)"
    unfolding split_chunks_def by (rule split_from_size)
  also have "\<dots> \<le> 16 * length text"
    using expandtabs_length [of 0 "text"] by (simp add: munge_whitespace_def)
  finally show ?thesis .
qed

section \<open>Texts of plain words\<close>

lemma plain_char_simps: "plain_char c \<Longrightarrow> \<not> is_ws c \<and> \<not> is_space c \<and> c \<noteq> 45 \<and> c \<noteq> 32 \<and> c \<noteq> 9"
  by (auto simp: plain_char_def is_space_def is_ws_def)

lemma expandtabs_no_tab: "9 \<notin> set t \<Longrightarrow> expandtabs 8 j t = t"
  by (induction t arbitrary: j) auto

lemma munge_plain:
  assumes "list_all (\<lambda>c. c = 32 \<or> plain_char c) t"
  shows "munge_whitespace t = t"
proof -
  have "9 \<notin> set t"
  proof
    assume "9 \<in> set t"
    with assms have "(9::nat) = 32 \<or> plain_char 9" by (auto simp: list_all_iff)
    with plain_char_simps [of 9] show False by simp
  qed
  moreover have "map (\<lambda>c. if is_ws c then 32 else c) t = t"
  proof (rule map_idI)
    fix c assume "c \<in> set t"
    with assms have "c = 32 \<or> plain_char c" by (auto simp: list_all_iff)
    with plain_char_simps [of c] show "(if is_ws c then 32 else c) = c" by auto
  qed
  ultimately show ?thesis by (simp add: munge_whitespace_def expandtabs_no_tab)
qed

lemma hyphen_run_plain: "c \<noteq> 45 \<Longrightarrow> hyphen_run db (c # cs) = 0"
  by (simp add: hyphen_run_def)

lemma hyphen_break_plain: "c \<noteq> 45 \<Longrightarrow> hyphen_break db bef (c # cs) = False"
  by (simp add: hyphen_break_def)

lemma word_end_plain:
  assumes "list_all plain_char w" and "rest = [] \<or> (\<exists>r. rest = 32 # r)"
  shows "word_end db bef (w @ rest) = length w"
  using assms(1)
proof (induction w arbitrary: bef)
  case Nil
  from assms(2) show ?case
    by (auto simp: hyphen_break_plain is_ws_def)
next
  case (Cons c cs)
  then have c: "c \<noteq> 45" "\<not> is_ws c" and cs: "list_all plain_char cs"
    using plain_char_simps by auto
  show ?case using Cons.IH [OF cs] c by (simp add: hyphen_break_plain hyphen_run_plain)
qed

lemma chunk_len_word:
  assumes "list_all plain_char w" and "w \<noteq> []" and "rest = [] \<or> (\<exists>r. rest = 32 # r)"
  shows "chunk_len db bef (w @ rest) = length w"
proof -
  from assms(2) obtain c cs where w: "w = c # cs" by (cases w) auto
  with assms(1) have c: "c \<noteq> 45" "\<not> is_ws c" and cs: "list_all plain_char cs"
    using plain_char_simps by auto
  show ?thesis unfolding w chunk_len_def
    using c word_end_plain [OF cs assms(3)] by (simp add: hyphen_run_plain)
qed

lemma chunk_len_blank:
  assumes "\<not> is_ws c"
  shows "chunk_len db bef (32 # c # rest) = 1"
  unfolding chunk_len_def using assms by (simp add: is_ws_def)


lemma join_hd: "list_all (plain_word n) (v # vs) \<Longrightarrow> \<exists>c r. join [32] (v # vs) = c # r \<and> \<not> is_ws c"
proof -
  assume a: "list_all (plain_word n) (v # vs)"
  then obtain c cs where v: "v = c # cs" "plain_char c"
    by (cases v) (auto simp: plain_word_def)
  have "join [32] (v # vs) = c # (cs @ (if vs = [] then [] else [32] @ join [32] vs))"
    unfolding v by (cases vs) auto
  with v(2) plain_char_simps show ?thesis by blast
qed

lemma split_from_step:
  assumes "chunk_len db bef (a @ b) = length a" and "a \<noteq> []"
  shows "split_from db bef (a @ b) = a # split_from db (rev a @ bef) b"
  using split_from.simps [of db bef "a @ b"] assms by simp

lemma split_plain_words:
  "list_all (plain_word n) words \<Longrightarrow> split_from db bef (join [32] words) = sep_chunks words"
proof (induction words arbitrary: bef rule: sep_chunks.induct)
  case 1
  show ?case by (simp add: split_from_Nil)
next
  case (2 w)
  then have pw: "list_all plain_char w" "w \<noteq> []" by (simp_all add: plain_word_def)
  from chunk_len_word [OF pw, of "[]" db bef] have cl: "chunk_len db bef w = length w" by simp
  show ?case using split_from_step [of db bef w "[]"] cl pw(2) by (simp add: split_from_Nil)
next
  case (3 w v vs)
  then have pw: "list_all plain_char w" "w \<noteq> []" and rest: "list_all (plain_word n) (v # vs)"
    by (simp_all add: plain_word_def [abs_def])
  from join_hd [OF rest] obtain d r where j: "join [32] (v # vs) = d # r" "\<not> is_ws d" by blast
  have t: "join [32] (w # v # vs) = w @ 32 # join [32] (v # vs)" by simp
  have cl: "chunk_len db bef (w @ 32 # join [32] (v # vs)) = length w" for bef
    by (rule chunk_len_word [OF pw]) simp
  have s1: "split_from db bef (w @ 32 # join [32] (v # vs))
      = w # split_from db (rev w @ bef) (32 # join [32] (v # vs))"
    using cl [of bef] pw(2) by (rule split_from_step)
  have s2: "split_from db bef' (32 # join [32] (v # vs)) = [32] # split_from db (32 # bef') (join [32] (v # vs))" for bef'
    using split_from_step [of db bef' "[32]" "join [32] (v # vs)"] chunk_len_blank [OF j(2), of db bef' r]
    unfolding j by simp
  show ?case unfolding t s1 s2 using "3.IH" [OF rest] by simp
qed

lemma plain_word_not_blank: "plain_word n w \<Longrightarrow> \<not> blank w"
proof -
  assume a: "plain_word n w"
  then obtain c cs where "w = c # cs" "plain_char c" by (cases w) (auto simp: plain_word_def)
  with plain_char_simps [of c] show ?thesis by (simp add: blank_def)
qed

lemma blank_sep: "blank [32]"
  by (simp add: blank_def is_space_def)

lemma concat_sep_chunks: "concat (sep_chunks ws) = join [32] ws"
  by (induction ws rule: sep_chunks.induct) simp_all

lemma sep_chunks_Cons: "ws \<noteq> [] \<Longrightarrow> sep_chunks (w # ws) = w # [32] # sep_chunks ws"
  by (cases ws) simp_all

lemma sep_chunks_Nil_iff: "sep_chunks ws = [] \<longleftrightarrow> ws = []"
  by (cases ws rule: sep_chunks.cases) simp_all

lemma hd_sep_chunks: "ws \<noteq> [] \<Longrightarrow> hd (sep_chunks ws) = hd ws"
  by (cases ws rule: sep_chunks.cases) simp_all

lemma last_sep_chunks: "ws \<noteq> [] \<Longrightarrow> last (sep_chunks ws) = last ws"
  by (induction ws rule: sep_chunks.induct) (simp_all add: sep_chunks_Nil_iff)

text \<open>What the inner loop takes from the chunks of plain words.\<close>

lemma fill_line_sep_chunks:
  assumes "list_all (plain_word n) words"
  shows "\<exists>j P R m. j \<le> length words
      \<and> (words \<noteq> [] \<and> k + length (hd words) \<le> n \<longrightarrow> 1 \<le> j)
      \<and> fill_line n (sep_chunks words) cl k = (cl @ P, m, R)
      \<and> ((P = sep_chunks (take j words)
            \<and> R = (if 0 < j \<and> j < length words then [[32]] else []) @ sep_chunks (drop j words))
          \<or> (0 < j \<and> j < length words \<and> P = sep_chunks (take j words) @ [[32]]
              \<and> R = sep_chunks (drop j words)))"
  using assms
proof (induction words arbitrary: cl k)
  case Nil
  show ?case by simp
next
  case (Cons w ws)
  then have rest: "list_all (plain_word n) ws" by simp
  show ?case
  proof (cases "k + length w \<le> n")
    case False
    then have "fill_line n (sep_chunks (w # ws)) cl k = (cl @ [], k, sep_chunks (w # ws))"
      by (cases ws) simp_all
    then show ?thesis using False
      by (intro exI [of _ 0] exI [of _ "[]"] exI [of _ "sep_chunks (w # ws)"] exI [of _ k]) simp
  next
    case fits: True
    show ?thesis
    proof (cases "ws = []")
      case True
      then have "fill_line n (sep_chunks (w # ws)) cl k = (cl @ [w], k + length w, [])"
        using fits by simp
      then show ?thesis using True
        by (intro exI [of _ 1] exI [of _ "[w]"] exI [of _ "[]"] exI [of _ "k + length w"]) simp
    next
      case ne: False
      show ?thesis
      proof (cases "k + length w + 1 \<le> n")
        case False
        then have "fill_line n (sep_chunks (w # ws)) cl k = (cl @ [w], k + length w, [32] # sep_chunks ws)"
          using fits ne by (simp add: sep_chunks_Cons)
        then show ?thesis using ne
          by (intro exI [of _ 1] exI [of _ "[w]"] exI [of _ "[32] # sep_chunks ws"] exI [of _ "k + length w"])
             simp
      next
        case True
        then have step: "fill_line n (sep_chunks (w # ws)) cl k
            = fill_line n (sep_chunks ws) (cl @ [w, [32]]) (k + length w + 1)"
          using fits ne by (simp add: sep_chunks_Cons)
        from Cons.IH [OF rest, of "k + length w + 1" "cl @ [w, [32]]"]
        obtain j P R m where ih: "j \<le> length ws"
          "fill_line n (sep_chunks ws) (cl @ [w, [32]]) (k + length w + 1) = ((cl @ [w, [32]]) @ P, m, R)"
          "(P = sep_chunks (take j ws)
              \<and> R = (if 0 < j \<and> j < length ws then [[32]] else []) @ sep_chunks (drop j ws))
           \<or> (0 < j \<and> j < length ws \<and> P = sep_chunks (take j ws) @ [[32]] \<and> R = sep_chunks (drop j ws))"
          by blast
        have res: "fill_line n (sep_chunks (w # ws)) cl k = (cl @ ([w, [32]] @ P), m, R)"
          unfolding step ih(2) by simp
        from ih(3) show ?thesis
        proof
          assume a: "P = sep_chunks (take j ws)
              \<and> R = (if 0 < j \<and> j < length ws then [[32]] else []) @ sep_chunks (drop j ws)"
          show ?thesis
          proof (cases "j = 0")
            case True
            with a have "[w, [32]] @ P = sep_chunks (take 1 (w # ws)) @ [[32]]" "R = sep_chunks (drop 1 (w # ws))"
              by simp_all
            with res ne show ?thesis
              by (intro exI [of _ 1] exI [of _ "[w, [32]] @ P"] exI [of _ R] exI [of _ m]) simp
          next
            case False
            then have "take j ws \<noteq> []" using ne by (cases ws) auto
            with a have "[w, [32]] @ P = sep_chunks (take (Suc j) (w # ws))"
              by (simp add: sep_chunks_Cons)
            moreover from a False have "R = (if 0 < Suc j \<and> Suc j < length (w # ws) then [[32]] else [])
                @ sep_chunks (drop (Suc j) (w # ws))" by simp
            ultimately show ?thesis using res ih(1)
              by (intro exI [of _ "Suc j"] exI [of _ "[w, [32]] @ P"] exI [of _ R] exI [of _ m]) simp
          qed
        next
          assume a: "0 < j \<and> j < length ws \<and> P = sep_chunks (take j ws) @ [[32]] \<and> R = sep_chunks (drop j ws)"
          then have "take j ws \<noteq> []" by (cases ws) auto
          with a have "[w, [32]] @ P = sep_chunks (take (Suc j) (w # ws)) @ [[32]]"
            by (simp add: sep_chunks_Cons)
          moreover from a have "R = sep_chunks (drop (Suc j) (w # ws))" by simp
          ultimately show ?thesis using res a
            by (intro exI [of _ "Suc j"] exI [of _ "[w, [32]] @ P"] exI [of _ R] exI [of _ m]) simp
        qed
      qed
    qed
  qed
qed

lemma wrap_line_plain:
  assumes "0 < n" and "list_all (plain_word n) words" and "words \<noteq> []"
  shows "\<exists>j. 1 \<le> j \<and> j \<le> length words
      \<and> snd (wrap_line n (sep_chunks words) lines0) = lines0 @ [join [32] (take j words)]
      \<and> (fst (wrap_line n (sep_chunks words) lines0) = sep_chunks (drop j words)
          \<or> (j < length words \<and> fst (wrap_line n (sep_chunks words) lines0) = [32] # sep_chunks (drop j words)))"
proof -
  have hdw: "plain_word n (hd words)" using assms(2,3) by (cases words) simp_all
  then have nb: "\<not> blank (hd (sep_chunks words))"
    using assms(3) by (simp add: hd_sep_chunks plain_word_not_blank)
  have k0: "0 + length (hd words) \<le> n" using hdw by (simp add: plain_word_def)
  from fill_line_sep_chunks [OF assms(2), of 0 "[]"] assms(3) k0
  obtain j P R m where f: "j \<le> length words" "1 \<le> j"
    "fill_line n (sep_chunks words) [] 0 = (P, m, R)"
    "(P = sep_chunks (take j words)
        \<and> R = (if 0 < j \<and> j < length words then [[32]] else []) @ sep_chunks (drop j words))
     \<or> (0 < j \<and> j < length words \<and> P = sep_chunks (take j words) @ [[32]] \<and> R = sep_chunks (drop j words))"
    by auto
  have tj: "take j words \<noteq> []" using f(2) assms(3) by (cases words) auto
  have pl: "plain_word n (last (take j words))"
    using assms(2) tj by (metis in_set_takeD last_in_set list_all_iff)
  have short: "\<not> (R \<noteq> [] \<and> n < length (hd R))"
  proof (cases "R = []")
    case True
    then show ?thesis by simp
  next
    case False
    have "hd R = [32] \<or> (drop j words \<noteq> [] \<and> hd R = hd (drop j words))"
    proof (cases "0 < j \<and> j < length words \<and> R = [[32]] @ sep_chunks (drop j words)")
      case True
      then show ?thesis by simp
    next
      case nob: False
      with f(4) have r: "R = sep_chunks (drop j words)" by (auto split: if_splits)
      with False have "drop j words \<noteq> []" by (auto simp: sep_chunks_Nil_iff)
      with r show ?thesis by (simp add: hd_sep_chunks)
    qed
    moreover have "drop j words \<noteq> [] \<Longrightarrow> plain_word n (hd (drop j words))"
      using assms(2) by (metis hd_in_set in_set_dropD list_all_iff)
    ultimately show ?thesis using assms(1) by (auto simp: plain_word_def)
  qed
  have strip: "(if P \<noteq> [] \<and> blank (last P) then butlast P else P) = sep_chunks (take j words)"
    using f(4) tj pl by (auto simp: last_sep_chunks plain_word_not_blank blank_sep sep_chunks_Nil_iff)
  have w: "wrap_line n (sep_chunks words) lines0 = (R, lines0 @ [join [32] (take j words)])"
  proof (cases "R = []")
    case True
    then show ?thesis
      unfolding wrap_line_def Let_def using nb f(3) strip tj
      by (simp add: concat_sep_chunks sep_chunks_Nil_iff)
  next
    case False
    with short have "\<not> n < length (hd R)" by simp
    then show ?thesis
      unfolding wrap_line_def Let_def using nb f(3) strip tj
      by (simp add: concat_sep_chunks sep_chunks_Nil_iff)
  qed
  have "R = sep_chunks (drop j words) \<or> (j < length words \<and> R = [32] # sep_chunks (drop j words))"
    using f(4) by (auto split: if_splits)
  with w f(1,2) show ?thesis by auto
qed

lemma wrap_line_skip_blank:
  assumes "lines0 \<noteq> []" and "cs \<noteq> []" and "\<not> blank (hd cs)"
  shows "wrap_line n ([32] # cs) lines0 = wrap_line n cs lines0"
  unfolding wrap_line_def using assms by (simp add: blank_sep)

lemma wrap_lines_step: "chunks \<noteq> [] \<Longrightarrow>
  wrap_lines n chunks lines0 = wrap_lines n (fst (wrap_line n chunks lines0)) (snd (wrap_line n chunks lines0))"
  by (subst wrap_lines.simps) simp

lemma wrap_lines_plain:
  assumes "0 < n"
  shows "list_all (plain_word n) words \<Longrightarrow>
    \<exists>groups. concat groups = words \<and> list_all (\<lambda>g. g \<noteq> []) groups
      \<and> wrap_lines n (sep_chunks words) lines0 = lines0 @ map (join [32]) groups
      \<and> (lines0 \<noteq> [] \<and> words \<noteq> [] \<longrightarrow>
          wrap_lines n ([32] # sep_chunks words) lines0 = lines0 @ map (join [32]) groups)"
proof (induction "length words" arbitrary: words lines0 rule: less_induct)
  case less
  show ?case
  proof (cases "words = []")
    case True
    then show ?thesis by (intro exI [of _ "[]"]) (simp add: wrap_lines.simps)
  next
    case False
    from wrap_line_plain [OF assms less.prems False, of lines0]
    obtain j where j: "1 \<le> j" "j \<le> length words"
      "snd (wrap_line n (sep_chunks words) lines0) = lines0 @ [join [32] (take j words)]"
      "fst (wrap_line n (sep_chunks words) lines0) = sep_chunks (drop j words)
        \<or> (j < length words \<and> fst (wrap_line n (sep_chunks words) lines0) = [32] # sep_chunks (drop j words))"
      by blast
    have shorter: "length (drop j words) < length words" using j(1) False by simp
    have pl: "list_all (plain_word n) (drop j words)"
      using less.prems by (auto simp: list_all_iff dest: in_set_dropD)
    from less.hyps [OF shorter pl, of "lines0 @ [join [32] (take j words)]"]
    obtain groups where g: "concat groups = drop j words" "list_all (\<lambda>g. g \<noteq> []) groups"
      "wrap_lines n (sep_chunks (drop j words)) (lines0 @ [join [32] (take j words)])
         = (lines0 @ [join [32] (take j words)]) @ map (join [32]) groups"
      "drop j words \<noteq> [] \<longrightarrow>
          wrap_lines n ([32] # sep_chunks (drop j words)) (lines0 @ [join [32] (take j words)])
            = (lines0 @ [join [32] (take j words)]) @ map (join [32]) groups"
      by auto
    have ne: "sep_chunks words \<noteq> []" using False by (simp add: sep_chunks_Nil_iff)
    have main: "wrap_lines n (sep_chunks words) lines0 = lines0 @ map (join [32]) (take j words # groups)"
    proof -
      have "wrap_lines n (sep_chunks words) lines0
          = wrap_lines n (fst (wrap_line n (sep_chunks words) lines0)) (lines0 @ [join [32] (take j words)])"
        using wrap_lines_step [OF ne, of n lines0] j(3) by simp
      also have "\<dots> = (lines0 @ [join [32] (take j words)]) @ map (join [32]) groups"
        using j(4) g(3,4) by auto
      finally show ?thesis by simp
    qed
    have tj: "take j words \<noteq> []" using j(1) False by (cases words) auto
    have nb: "\<not> blank (hd (sep_chunks words))"
      using False less.prems by (cases words) (auto simp: hd_sep_chunks dest: plain_word_not_blank)
    have second: "lines0 \<noteq> [] \<Longrightarrow>
        wrap_lines n ([32] # sep_chunks words) lines0 = lines0 @ map (join [32]) (take j words # groups)"
    proof -
      assume l: "lines0 \<noteq> []"
      have "wrap_lines n ([32] # sep_chunks words) lines0
          = wrap_lines n (fst (wrap_line n (sep_chunks words) lines0)) (snd (wrap_line n (sep_chunks words) lines0))"
        using wrap_lines_step [of "[32] # sep_chunks words" n lines0] wrap_line_skip_blank [OF l ne nb, of n]
        by simp
      also have "\<dots> = wrap_lines n (sep_chunks words) lines0"
        using wrap_lines_step [OF ne, of n lines0] by simp
      finally show ?thesis using main by simp
    qed
    show ?thesis
      using g(1,2) tj main second
      by (intro exI [of _ "take j words # groups"]) simp
  qed
qed



lemma join_plain_chars:
  "list_all (plain_word n) words \<Longrightarrow> list_all (\<lambda>c. c = 32 \<or> plain_char c) (join [32] words)"
  by (induction words rule: sep_chunks.induct) (auto simp: plain_word_def list_all_iff)

lemma wrap_plain_words:
  assumes "0 < width" and "list_all (plain_word (nat width)) words"
  shows "\<exists>groups. concat groups = words \<and> list_all (\<lambda>g. g \<noteq> []) groups
      \<and> wrap db (join [32] words) width = Inr (map (join [32]) groups)"
proof -
  have "split_chunks db (join [32] words) = sep_chunks words"
    unfolding split_chunks_def munge_plain [OF join_plain_chars [OF assms(2)]]
    using assms(2) by (rule split_plain_words)
  moreover from wrap_lines_plain [OF _ assms(2), of "[]"] assms(1)
  obtain groups where "concat groups = words" "list_all (\<lambda>g. g \<noteq> []) groups"
    "wrap_lines (nat width) (sep_chunks words) [] = map (join [32]) groups" by auto
  ultimately show ?thesis using assms(1) by (auto simp: wrap_def wrap_chunks_def)
qed


lemma pieces_Nil: "pieces n [] = []"
  by (simp add: pieces.simps)

lemma pieces_Cons: "0 < n \<Longrightarrow> xs \<noteq> [] \<Longrightarrow> pieces n xs = take n xs # pieces n (drop n xs)"
  by (subst pieces.simps) (simp split: list.splits)

lemma plain_chars_not_blank: "w \<noteq> [] \<Longrightarrow> list_all plain_char w \<Longrightarrow> \<not> blank w"
  using plain_word_not_blank [of "length w" w] by (simp add: plain_word_def)

lemma plain_no_hyphen: "list_all plain_char w \<Longrightarrow> 45 \<notin> set w"
  by (auto simp: list_all_iff plain_char_def)

lemma wrap_lines_long_word:
  assumes "0 < n"
  shows "w \<noteq> [] \<Longrightarrow> list_all plain_char w \<Longrightarrow> wrap_lines n [w] lines0 = lines0 @ pieces n w"
proof (induction "length w" arbitrary: w lines0 rule: less_induct)
  case less
  have nb: "\<not> blank w" using less.prems by (rule plain_chars_not_blank)
  show ?case
  proof (cases "length w \<le> n")
    case True
    then have "wrap_line n [w] lines0 = ([], lines0 @ [w])"
      using nb less.prems(1) by (simp add: wrap_line_def)
    moreover have "pieces n w = [w]"
      using True assms less.prems(1) by (simp add: pieces_Cons pieces_Nil)
    ultimately show ?thesis using wrap_lines_step [of "[w]" n lines0] by (simp add: wrap_lines.simps)
  next
    case False
    have tk: "take n w \<noteq> []" "list_all plain_char (take n w)"
      and dr: "drop n w \<noteq> []" "list_all plain_char (drop n w)"
      using False assms less.prems by (auto simp: list_all_iff dest: in_set_takeD in_set_dropD)
    have "wrap_line n [w] lines0 = ([drop n w], lines0 @ [take n w])"
      using False assms nb plain_chars_not_blank [OF tk] tk(1)
      by (simp add: wrap_line_def handle_long_word_def Let_def
          rfind_hyphen_none [OF plain_no_hyphen [OF less.prems(2)]])
    moreover have "wrap_lines n [drop n w] (lines0 @ [take n w]) = (lines0 @ [take n w]) @ pieces n (drop n w)"
      using False assms dr by (intro less.hyps) simp_all
    moreover have "pieces n w = take n w # pieces n (drop n w)"
      using assms less.prems(1) by (rule pieces_Cons)
    ultimately show ?thesis using wrap_lines_step [of "[w]" n lines0] by simp
  qed
qed

lemma wrap_long_word:
  assumes "0 < width" and "w \<noteq> []" and "list_all plain_char w"
  shows "wrap db w width = Inr (pieces (nat width) w)"
proof -
  have pw: "list_all (plain_word (length w)) [w]" using assms(2,3) by (simp add: plain_word_def)
  have "split_chunks db w = [w]"
    unfolding split_chunks_def
    using munge_plain [OF join_plain_chars [OF pw]] split_plain_words [OF pw, of db "[]"] by simp
  moreover have "wrap_lines (nat width) [w] [] = pieces (nat width) w"
    using wrap_lines_long_word [of "nat width" w "[]"] assms by simp
  ultimately show ?thesis using assms(1) by (simp add: wrap_def wrap_chunks_def)
qed

section \<open>Word wrapping: what holds and what does not\<close>

lemma add_paragraph_count:
  "wrap db text width = Inr lines \<Longrightarrow>
     \<exists>s'. add_paragraph db s text width = Inr s'
        \<and> length (Layout.commands s') = length (Layout.commands s) + length lines"
  by (simp add: add_paragraph_def add_paragraph_lines_count)

lemma Page_p_count:
  "wrap db text width = Inr lines \<Longrightarrow>
     \<exists>p'. Page_p db p text width = Inr p'
        \<and> length (Page.commands p') = length (Page.commands p) + length lines"
  by (simp add: Page_p_def Page_p_lines_commands)

text \<open>
  Claim C5, amended. For every paragraph text and wrap width of at least 1, the paragraph
  call returns with one instruction per wrapped line and every line has at most as many
  characters as the width. Where the text is plain words, none longer than the width,
  with single blanks between them, every line is a run of whole consecutive words. A
  single plain word longer than the width is not kept whole: it is cut into consecutive
  pieces of exactly the width, the last one shorter when the length asks for it.
\<close>

theorem lines_fit_the_width:
  assumes "0 < width"
  shows "(\<exists>lines s' p'. wrap db text width = Inr lines
            \<and> list_all (\<lambda>l. length l \<le> nat width) lines
            \<and> add_paragraph db s text width = Inr s'
            \<and> length (Layout.commands s') = length (Layout.commands s) + length lines
            \<and> Page_p db p text width = Inr p'
            \<and> length (Page.commands p') = length (Page.commands p) + length lines)
       \<and> (list_all (plain_word (nat width)) words \<longrightarrow>
            (\<exists>groups. concat groups = words \<and> list_all (\<lambda>g. g \<noteq> []) groups
               \<and> wrap db (join [32] words) width = Inr (map (join [32]) groups)))
       \<and> (word \<noteq> [] \<and> list_all plain_char word \<longrightarrow>
            wrap db word width = Inr (pieces (nat width) word))"
proof (intro conjI impI)
  from wrap_fits [OF assms, of db "text"]
  obtain lines where l: "wrap db text width = Inr lines" "list_all (\<lambda>l. length l \<le> nat width) lines"
    by blast
  from add_paragraph_count [OF l(1), of s] Page_p_count [OF l(1), of p] l
  show "\<exists>lines s' p'. wrap db text width = Inr lines
            \<and> list_all (\<lambda>l. length l \<le> nat width) lines
            \<and> add_paragraph db s text width = Inr s'
            \<and> length (Layout.commands s') = length (Layout.commands s) + length lines
            \<and> Page_p db p text width = Inr p'
            \<and> length (Page.commands p') = length (Page.commands p) + length lines"
    by blast
next
  assume "list_all (plain_word (nat width)) words"
  with assms show "\<exists>groups. concat groups = words \<and> list_all (\<lambda>g. g \<noteq> []) groups
               \<and> wrap db (join [32] words) width = Inr (map (join [32]) groups)"
    by (rule wrap_plain_words)
next
  assume "word \<noteq> [] \<and> list_all plain_char word"
  with assms show "wrap db word width = Inr (pieces (nat width) word)"
    by (simp add: wrap_long_word)
qed

lemmas plain_eval = plain_word_def plain_char_def is_space_def lit_def

text \<open>At the width 4: the word \<open>abcdefghij\<close> and the text \<open>ab cd e\<close>.\<close>

theorem lines_fit_the_width_witness:
  "(0::int) < 4
   \<and> list_all (plain_word (nat 4)) [lit ''ab'', lit ''cd'', lit ''e'']
   \<and> list_all plain_char (lit ''abcdefghij'')
   \<and> wrap ascii_db (lit ''abcdefghij'') 4 = Inr [lit ''abcd'', lit ''efgh'', lit ''ij'']
   \<and> (\<exists>groups. concat groups = [lit ''ab'', lit ''cd'', lit ''e'']
         \<and> wrap ascii_db (lit ''ab cd e'') 4 = Inr (map (join [32]) groups))
   \<and> (\<exists>lines. wrap ascii_db (lit ''ab cd e'') 4 = Inr lines \<and> list_all (\<lambda>l. length l \<le> 4) lines)"
proof -
  have w: "(0::int) < 4" by simp
  have p: "list_all (plain_word (nat 4)) [lit ''ab'', lit ''cd'', lit ''e'']"
    and c: "lit ''abcdefghij'' \<noteq> [] \<and> list_all plain_char (lit ''abcdefghij'')"
    by (simp_all add: plain_eval)
  have j: "join [32] [lit ''ab'', lit ''cd'', lit ''e''] = lit ''ab cd e''"
    by (simp add: lit_def)
  have pc: "pieces (nat 4) (lit ''abcdefghij'') = [lit ''abcd'', lit ''efgh'', lit ''ij'']"
    by (simp add: pieces_Cons pieces_Nil lit_def)
  from lines_fit_the_width [OF w, of ascii_db "lit ''ab cd e''" Layout_init Page_init
      "[lit ''ab'', lit ''cd'', lit ''e'']" "lit ''abcdefghij''"] p c
  show ?thesis unfolding j pc by auto
qed

text \<open>
  Claim C5 as stated: the single word \<open>abcdefghij\<close>, longer than the width 4, is not
  placed unbroken on a line of its own. It comes out on three lines, broken inside the
  word.
\<close>

theorem long_word_is_broken:
  "wrap ascii_db (lit ''abcdefghij'') 4 = Inr [lit ''abcd'', lit ''efgh'', lit ''ij'']
   \<and> add_paragraph ascii_db Layout_init (lit ''abcdefghij'') 4
       = Inr \<lparr>Layout.commands = [text_cmd ascii_db 54 752 (lit ''abcd'') (lit ''F1'') 10,
                                  text_cmd ascii_db 54 740 (lit ''efgh'') (lit ''F1'') 10,
                                  text_cmd ascii_db 54 728 (lit ''ij'') (lit ''F1'') 10],
              Layout.y = 712, Layout.left = 54, body_size = 10, body_leading = 12\<rparr>"
  by (simp add: add_paragraph_def wrap_example Layout_init_def fsub_whole)




section \<open>A page of 169 lines\<close>

lemma length_pieces_one: "length (pieces (Suc 0) xs) = length xs"
proof (induction xs)
  case Nil
  show ?case by (simp add: pieces_Nil)
next
  case (Cons x xs)
  show ?case using Cons by (simp add: pieces_Cons)
qed

lemma Page_p_lines_y_iter:
  "Page.y (Page_p_lines p lines) = ((\<lambda>y. fsub y (rnd 10.6)) ^^ length lines) (Page.y p)"
proof (induction lines arbitrary: p)
  case Nil
  show ?case by simp
next
  case (Cons line lines)
  have "Page.y (Page_p_lines p (line # lines))
      = ((\<lambda>y. fsub y (rnd 10.6)) ^^ length lines) (fsub (Page.y p) (rnd 10.6))"
    by (simp add: Cons)
  also have "\<dots> = ((\<lambda>y. fsub y (rnd 10.6)) ^^ length (line # lines)) (Page.y p)"
    by (simp only: length_Cons funpow_Suc_right o_apply)
  finally show ?case .
qed

lemma iter_numeral: "(f ^^ numeral k) x = (f ^^ pred_numeral k) (f x)"
  by (simp add: numeral_eq_Suc funpow_swap1)

lemmas rnd_binades =
  rnd_frac [where n = 42] rnd_frac [where n = 43] rnd_frac [where n = 44] rnd_frac [where n = 45]
  rnd_frac [where n = 46] rnd_frac [where n = 47] rnd_frac [where n = 48] rnd_frac [where n = 49]
  rnd_frac [where n = 50] rnd_frac [where n = 51] rnd_frac [where n = 52]

lemma cursor_after_169_lines:
  "((\<lambda>y. fsub y (5967269506265907 / 2 ^ 49)) ^^ 169) 770 = - (8984329412883273 / 2 ^ 43)"
  by (simp add: iter_numeral fsub_def rnd_binades round_half_even_def)

lemma line_step: "rnd 10.6 = 5967269506265907 / 2 ^ 49"
  by (simp add: rnd_literals)

lemma page_of_169_lines:
  "\<exists>p'. Page_p ascii_db Page_init (replicate 169 120) 1 = Inr p'
        \<and> Page.y p' = - (9001921598927689 / 2 ^ 43)"
proof -
  define lines :: "str list" where "lines = pieces (nat 1) (replicate 169 120)"
  have w: "wrap ascii_db (replicate 169 120) 1 = Inr lines"
    unfolding lines_def by (rule wrap_long_word) (simp_all add: list_all_iff plain_char_def is_space_def)
  have n: "length lines = 169" by (simp add: lines_def length_pieces_one)
  have "Page.y (Page_p_lines Page_init lines) = - (8984329412883273 / 2 ^ 43)"
    unfolding Page_p_lines_y_iter n line_step by (simp only: Page_init_def Page.simps cursor_after_169_lines)
  moreover have "fsub (- (8984329412883273 / 2 ^ 43)) 2 = - (9001921598927689 / 2 ^ 43)"
    unfolding fsub_def by (subst rnd_frac [where n = 43]) (simp_all add: round_half_even_def)
  ultimately show ?thesis by (simp add: Page_p_def w)
qed

text \<open>
  Claim C10 as stated, by exactly the gap. \<open>page_169\<close> is the page after \<open>Page()\<close> and one
  call of \<open>p\<close> with 169 letters \<open>x\<close> at the width 1, a paragraph of 169 lines: its cursor is
  the double \<open>-1023.4000000000025\<close>, which is \<open>-9001921598927689 / 2^43\<close>. A call of \<open>p\<close>
  with the empty string on this page moves the cursor to the double
  \<open>-1025.4000000000024\<close>, which is \<open>-1127439223121513 / 2^40\<close>: the cursor sinks by
  \<open>2 - 2^-43\<close>, not by 2.0. In the app-summary layout a cursor at \<open>-2^55\<close> stays where it
  is: the doubles next to it are 8 below and 4 above, and the tie goes to the even one.
\<close>

theorem gap_is_rounded:
  "map_sum id Page.y page_169 = Inr (- (9001921598927689 / 2 ^ 43))
   \<and> map_sum id Page.y (Page_p ascii_db (projr page_169) [] 118) = Inr (- (1127439223121513 / 2 ^ 40))
   \<and> - (9001921598927689 / 2 ^ 43) - (- (1127439223121513 / 2 ^ 40)) = (2 - 1 / 2 ^ 43 :: real)
   \<and> add_paragraph ascii_db (Layout_init\<lparr>Layout.y := - (2 ^ 55)\<rparr>) [] 98
       = Inr (Layout_init\<lparr>Layout.y := - (2 ^ 55)\<rparr>)"
proof -
  obtain p' where p: "page_169 = Inr p'" "Page.y p' = - (9001921598927689 / 2 ^ 43)"
    using page_of_169_lines unfolding page_169_def by blast
  have w: "wrap ascii_db [] 118 = Inr []" "wrap ascii_db [] 98 = Inr []"
    by (rule wrap_whitespace; simp)+
  have 2: "fsub (- (9001921598927689 / 2 ^ 43)) 2 = - (1127439223121513 / 2 ^ 40)"
    unfolding fsub_def by (subst rnd_frac [where n = 42]) (simp_all add: round_half_even_def)
  have 3: "fsub (- (2 ^ 55)) 4 = - (2 ^ 55)"
    unfolding fsub_def by (subst rnd_big [where n = 3]) (simp_all add: round_half_even_def)
  show ?thesis
    using 2 3 by (simp add: p Page_p_def add_paragraph_def w Layout_init_def)
qed

section \<open>The report scenario\<close>

text \<open>
  Claim C7. For one title \<open>Report\<close> and one paragraph of 250 plain ASCII characters wrapped
  at the width 98, the layout holds exactly the title instruction followed by one body
  instruction per wrapped line, each line 12.0 below the one before, and the cursor ends
  at 752.0 minus (20.0 + 12.0 times the number of lines + 4.0).
\<close>

theorem report_scenario:
  assumes "length text = 250" and "list_all (\<lambda>c. c < 128) text"
  shows "\<exists>lines s'. wrap db text 98 = Inr lines
       \<and> add_paragraph db (add_title db Layout_init (lit ''Report'')) text 98 = Inr s'
       \<and> Layout.commands s'
           = text_cmd db 54 752 (lit ''Report'') (lit ''F2'') 18
             # map (\<lambda>i. text_cmd db 54 (732 - real i * 12) (lines ! i) (lit ''F1'') 10) [0..<length lines]
       \<and> length (Layout.commands s') = 1 + length lines
       \<and> Layout.y s' = 752 - (20 + real (length lines) * 12 + 4)"
proof -
  define lines where "lines = wrap_lines 98 (split_chunks db text) []"
  define s0 where "s0 = add_title db Layout_init (lit ''Report'')"
  have w: "wrap db text 98 = Inr lines" by (simp add: wrap_returns lines_def)
  have n: "length lines \<le> 4000" using wrap_count [OF w] assms(1) by simp
  have f: "Layout.commands s0 = [text_cmd db 54 752 (lit ''Report'') (lit ''F2'') 18]"
    "Layout.y s0 = 732" "Layout.left s0 = 54" "body_size s0 = 10" "body_leading s0 = 12"
    by (simp_all add: s0_def add_title_def Layout_init_def fsub_whole)
  have b: "\<bar>Layout.y s0\<bar> + real (length lines) * body_leading s0 \<le> 2 ^ 53"
    unfolding f using n by simp
  have i: "Layout.y s0 \<in> \<int>" "body_leading s0 \<in> \<int>" "0 \<le> body_leading s0"
    unfolding f by simp_all
  note y = add_paragraph_lines_y [OF i b, of db]
  note c = add_paragraph_lines_commands [OF i b, of db]
  have g: "fsub (732 - real (length lines) * 12) 4 = 732 - real (length lines) * 12 - 4"
    using n by (intro fsub_whole) simp_all
  define s' where "s' = (add_paragraph_lines db s0 lines)\<lparr>Layout.y := fsub (Layout.y (add_paragraph_lines db s0 lines)) 4\<rparr>"
  have p: "add_paragraph db s0 text 98 = Inr s'" by (simp add: add_paragraph_def w s'_def)
  have 1: "Layout.commands s'
           = text_cmd db 54 752 (lit ''Report'') (lit ''F2'') 18
             # map (\<lambda>i. text_cmd db 54 (732 - real i * 12) (lines ! i) (lit ''F1'') 10) [0..<length lines]"
    by (simp add: s'_def c f)
  have 2: "Layout.y s' = 752 - (20 + real (length lines) * 12 + 4)"
    by (simp add: s'_def y f g)
  have 3: "length (Layout.commands s') = 1 + length lines" unfolding 1 by simp
  from w p 1 2 3 show ?thesis unfolding s0_def by blast
qed


text \<open>A paragraph of 250 characters, 46 plain words with single blanks between them.\<close>

lemma sample_words:
  "lit ''The quick brown fox jumps over the lazy dog while the layout engine counts every line it places on the page. Each wrapped line moves the cursor down by the body leading and one trailing gap follows the whole paragraph there. Short lines end it here..''
   = join [32] [lit ''The'', lit ''quick'', lit ''brown'', lit ''fox'', lit ''jumps'', lit ''over'', lit ''the'', lit ''lazy'', lit ''dog'', lit ''while'', lit ''the'', lit ''layout'', lit ''engine'', lit ''counts'', lit ''every'', lit ''line'', lit ''it'', lit ''places'', lit ''on'', lit ''the'', lit ''page.'', lit ''Each'', lit ''wrapped'', lit ''line'', lit ''moves'', lit ''the'', lit ''cursor'', lit ''down'', lit ''by'', lit ''the'', lit ''body'', lit ''leading'', lit ''and'', lit ''one'', lit ''trailing'', lit ''gap'', lit ''follows'', lit ''the'', lit ''whole'', lit ''paragraph'', lit ''there.'', lit ''Short'', lit ''lines'', lit ''end'', lit ''it'', lit ''here..'']"
  by (simp add: lit_def)

lemma sample_plain:
  "list_all (plain_word 98) [lit ''The'', lit ''quick'', lit ''brown'', lit ''fox'', lit ''jumps'', lit ''over'', lit ''the'', lit ''lazy'', lit ''dog'', lit ''while'', lit ''the'', lit ''layout'', lit ''engine'', lit ''counts'', lit ''every'', lit ''line'', lit ''it'', lit ''places'', lit ''on'', lit ''the'', lit ''page.'', lit ''Each'', lit ''wrapped'', lit ''line'', lit ''moves'', lit ''the'', lit ''cursor'', lit ''down'', lit ''by'', lit ''the'', lit ''body'', lit ''leading'', lit ''and'', lit ''one'', lit ''trailing'', lit ''gap'', lit ''follows'', lit ''the'', lit ''whole'', lit ''paragraph'', lit ''there.'', lit ''Short'', lit ''lines'', lit ''end'', lit ''it'', lit ''here..'']"
  by (simp add: plain_eval)

lemma sample_lines:
  "wrap_lines 98 (sep_chunks [lit ''The'', lit ''quick'', lit ''brown'', lit ''fox'', lit ''jumps'', lit ''over'', lit ''the'', lit ''lazy'', lit ''dog'', lit ''while'', lit ''the'', lit ''layout'', lit ''engine'', lit ''counts'', lit ''every'', lit ''line'', lit ''it'', lit ''places'', lit ''on'', lit ''the'', lit ''page.'', lit ''Each'', lit ''wrapped'', lit ''line'', lit ''moves'', lit ''the'', lit ''cursor'', lit ''down'', lit ''by'', lit ''the'', lit ''body'', lit ''leading'', lit ''and'', lit ''one'', lit ''trailing'', lit ''gap'', lit ''follows'', lit ''the'', lit ''whole'', lit ''paragraph'', lit ''there.'', lit ''Short'', lit ''lines'', lit ''end'', lit ''it'', lit ''here..'']) []
   = [lit ''The quick brown fox jumps over the lazy dog while the layout engine counts every line it places on'',
      lit ''the page. Each wrapped line moves the cursor down by the body leading and one trailing gap follows'',
      lit ''the whole paragraph there. Short lines end it here..'']"
  by (simp add: wrap_lines_Nil wrap_lines_Cons wrap_line_def handle_long_word_def blank_def
      is_space_def lit_def Let_def)

lemma sample_wrap:
  "wrap db (lit ''The quick brown fox jumps over the lazy dog while the layout engine counts every line it places on the page. Each wrapped line moves the cursor down by the body leading and one trailing gap follows the whole paragraph there. Short lines end it here..'') 98
   = Inr [lit ''The quick brown fox jumps over the lazy dog while the layout engine counts every line it places on'',
          lit ''the page. Each wrapped line moves the cursor down by the body leading and one trailing gap follows'',
          lit ''the whole paragraph there. Short lines end it here..'']"
proof -
  have "split_chunks db (join [32] [lit ''The'', lit ''quick'', lit ''brown'', lit ''fox'', lit ''jumps'', lit ''over'', lit ''the'', lit ''lazy'', lit ''dog'', lit ''while'', lit ''the'', lit ''layout'', lit ''engine'', lit ''counts'', lit ''every'', lit ''line'', lit ''it'', lit ''places'', lit ''on'', lit ''the'', lit ''page.'', lit ''Each'', lit ''wrapped'', lit ''line'', lit ''moves'', lit ''the'', lit ''cursor'', lit ''down'', lit ''by'', lit ''the'', lit ''body'', lit ''leading'', lit ''and'', lit ''one'', lit ''trailing'', lit ''gap'', lit ''follows'', lit ''the'', lit ''whole'', lit ''paragraph'', lit ''there.'', lit ''Short'', lit ''lines'', lit ''end'', lit ''it'', lit ''here..''])
      = sep_chunks [lit ''The'', lit ''quick'', lit ''brown'', lit ''fox'', lit ''jumps'', lit ''over'', lit ''the'', lit ''lazy'', lit ''dog'', lit ''while'', lit ''the'', lit ''layout'', lit ''engine'', lit ''counts'', lit ''every'', lit ''line'', lit ''it'', lit ''places'', lit ''on'', lit ''the'', lit ''page.'', lit ''Each'', lit ''wrapped'', lit ''line'', lit ''moves'', lit ''the'', lit ''cursor'', lit ''down'', lit ''by'', lit ''the'', lit ''body'', lit ''leading'', lit ''and'', lit ''one'', lit ''trailing'', lit ''gap'', lit ''follows'', lit ''the'', lit ''whole'', lit ''paragraph'', lit ''there.'', lit ''Short'', lit ''lines'', lit ''end'', lit ''it'', lit ''here..'']"
    unfolding split_chunks_def munge_plain [OF join_plain_chars [OF sample_plain]]
    using sample_plain by (rule split_plain_words)
  then show ?thesis
    unfolding sample_words wrap_def wrap_chunks_def using sample_lines by simp
qed

text \<open>Three lines of 98, 98 and 52 characters; the cursor ends at 692.\<close>

theorem report_scenario_witness:
  "length (lit ''The quick brown fox jumps over the lazy dog while the layout engine counts every line it places on the page. Each wrapped line moves the cursor down by the body leading and one trailing gap follows the whole paragraph there. Short lines end it here..'') = 250
   \<and> list_all (\<lambda>c. c < 128) (lit ''The quick brown fox jumps over the lazy dog while the layout engine counts every line it places on the page. Each wrapped line moves the cursor down by the body leading and one trailing gap follows the whole paragraph there. Short lines end it here..'')
   \<and> wrap ascii_db (lit ''The quick brown fox jumps over the lazy dog while the layout engine counts every line it places on the page. Each wrapped line moves the cursor down by the body leading and one trailing gap follows the whole paragraph there. Short lines end it here..'') 98
       = Inr [lit ''The quick brown fox jumps over the lazy dog while the layout engine counts every line it places on'',
              lit ''the page. Each wrapped line moves the cursor down by the body leading and one trailing gap follows'',
              lit ''the whole paragraph there. Short lines end it here..'']
   \<and> (\<exists>s'. add_paragraph ascii_db (add_title ascii_db Layout_init (lit ''Report''))
              (lit ''The quick brown fox jumps over the lazy dog while the layout engine counts every line it places on the page. Each wrapped line moves the cursor down by the body leading and one trailing gap follows the whole paragraph there. Short lines end it here..'') 98 = Inr s'
         \<and> length (Layout.commands s') = 4
         \<and> Layout.y s' = 692)"
proof -
  have h: "length (lit ''The quick brown fox jumps over the lazy dog while the layout engine counts every line it places on the page. Each wrapped line moves the cursor down by the body leading and one trailing gap follows the whole paragraph there. Short lines end it here..'') = 250"
    "list_all (\<lambda>c. c < 128) (lit ''The quick brown fox jumps over the lazy dog while the layout engine counts every line it places on the page. Each wrapped line moves the cursor down by the body leading and one trailing gap follows the whole paragraph there. Short lines end it here..'')"
    by (simp_all add: lit_def)
  from report_scenario [OF h, of ascii_db] show ?thesis
    using h unfolding sample_wrap by auto
qed

end
